theory Spec2Isabelle
  imports Complex_Main "HOL-Library.Sublist" "HOL-Library.Log_Nat"
begin

section \<open>Strings\<close>

text \<open>
  A JavaScript string is a sequence of UTF-16 code units. The model uses \<^typ>\<open>string\<close>,
  a list of 8-bit characters, read as the code units \<open>0..255\<close> (Basic Latin and Latin-1).
  On such strings \<open>toLowerCase\<close> works unit by unit and stays in the range, the class
  \<open>\s\<close> and the characters that \<open>trim\<close> strips are the seven units below, and
  \<open>\d\<close> is \<open>0..9\<close>. \<open>length\<close> counts code units, as \<open>.length\<close> does.
\<close>

definition isWhite :: "char \<Rightarrow> bool" where
  "isWhite c = (of_char c \<in> {9, 10, 11, 12, 13, 32, 160 :: nat})"

definition isDigit :: "char \<Rightarrow> bool" where
  "isDigit c = (48 \<le> (of_char c :: nat) \<and> (of_char c :: nat) \<le> 57)"

definition lowerUnit :: "char \<Rightarrow> char" where
  "lowerUnit c =
     (let n = (of_char c :: nat)
      in if (65 \<le> n \<and> n \<le> 90) \<or> (192 \<le> n \<and> n \<le> 222 \<and> n \<noteq> 215)
         then char_of (n + 32) else c)"

definition toLowerCase :: "string \<Rightarrow> string" where
  "toLowerCase s = map lowerUnit s"

text \<open>\<open>s.replace(/\s+/g, " ")\<close>: every maximal run of white space becomes one space.\<close>

function collapseWhite :: "string \<Rightarrow> string" where
  "collapseWhite [] = []"
| "collapseWhite (c # cs) =
     (if isWhite c then CHR '' '' # collapseWhite (dropWhile isWhite cs)
      else c # collapseWhite cs)"
  by pat_completeness auto
termination
  by (relation "measure length") (auto simp: length_dropWhile_le less_Suc_eq_le)

definition trim :: "string \<Rightarrow> string" where
  "trim s = rev (dropWhile isWhite (rev (dropWhile isWhite s)))"

text \<open>\<open>normalize(str) = str.toLowerCase().replace(/\s+/g, " ").trim()\<close>\<close>

definition normalize_str :: "string \<Rightarrow> string" where
  "normalize_str str = trim (collapseWhite (toLowerCase str))"

text \<open>\<open>s.includes(t)\<close>: \<open>t\<close> occurs in \<open>s\<close> as a contiguous block.\<close>

fun str_includes :: "string \<Rightarrow> string \<Rightarrow> bool" where
  "str_includes [] t = (t = [])"
| "str_includes (c # cs) t = (prefix t (c # cs) \<or> str_includes cs t)"

text \<open>\<open>q.split(" ")\<close>: the pieces between single spaces, empty pieces included.\<close>

fun split_space :: "string \<Rightarrow> string list" where
  "split_space [] = [[]]"
| "split_space (c # cs) =
     (if c = CHR '' '' then [] # split_space cs
      else (case split_space cs of [] \<Rightarrow> [[c]] | t # ts \<Rightarrow> (c # t) # ts))"

text \<open>\<open>/\$[\d]/.test(s)\<close>: a dollar sign directly followed by a digit.\<close>

fun dollarDigit :: "string \<Rightarrow> bool" where
  "dollarDigit (a # b # cs) = ((a = CHR ''$'' \<and> isDigit b) \<or> dollarDigit (b # cs))"
| "dollarDigit _ = False"

text \<open>
  Shape of a string in which white space occurs only as single spaces; used to describe
  the results of \<open>collapseWhite\<close>.
\<close>

fun spaced :: "string \<Rightarrow> bool" where
  "spaced [] = True"
| "spaced [c] = (isWhite c \<longrightarrow> c = CHR '' '')"
| "spaced (c # d # cs) = ((isWhite c \<longrightarrow> c = CHR '' '' \<and> \<not> isWhite d) \<and> spaced (d # cs))"

section \<open>Numbers\<close>

text \<open>
  A JavaScript number is an IEEE 754 binary64 value. Every number computed here is
  non-negative (the digits matched in a price carry no sign, and the only operations
  are sums, minima, maxima, and products and quotients with positive constants), so a
  number is a non-negative rational that binary64 represents, or \<open>+Infinity\<close>.
  Each arithmetic operation yields the exact result rounded to the nearest representable
  value, ties to the even significand (\<open>round64\<close>); results of magnitude \<open>2^1024\<close>
  or more become \<open>+Infinity\<close>, and below \<open>2^-1022\<close> the spacing stays \<open>2^-1074\<close>.
  \<open>round64\<close> is applied to non-negative rationals only.
\<close>

datatype jsnum = Fin rat | PosInf

definition roundHalfEven :: "rat \<Rightarrow> int" where
  "roundHalfEven y =
     (let f = \<lfloor>y\<rfloor>; d = y - of_int f
      in if d < 1 / 2 then f else if 1 / 2 < d then f + 1 else if even f then f else f + 1)"

text \<open>The binary exponent \<open>\<lfloor>log\<^sub>2 x\<rfloor>\<close> of a positive rational.\<close>

definition ilog2 :: "rat \<Rightarrow> int" where
  "ilog2 x = (if 1 \<le> x then bitlen \<lfloor>x\<rfloor> - 1 else - bitlen (\<lceil>1 / x\<rceil> - 1))"

definition round64 :: "rat \<Rightarrow> jsnum" where
  "round64 x =
     (if x \<le> 0 then Fin 0
      else let e = max (ilog2 x) (- 1022);
               ulp = 2 powi (e - 52);
               r = of_int (roundHalfEven (x / ulp)) * ulp
           in if 2 powi 1024 \<le> r then PosInf else Fin r)"

text \<open>\<open>a + b\<close>\<close>

fun jadd :: "jsnum \<Rightarrow> jsnum \<Rightarrow> jsnum" where
  "jadd (Fin a) (Fin b) = round64 (a + b)"
| "jadd _ _ = PosInf"

text \<open>\<open>a * c\<close> and \<open>a / c\<close> for a finite constant \<open>c > 0\<close>\<close>

fun jtimes :: "jsnum \<Rightarrow> rat \<Rightarrow> jsnum" where
  "jtimes (Fin a) c = round64 (a * c)"
| "jtimes PosInf c = PosInf"

fun jover :: "jsnum \<Rightarrow> rat \<Rightarrow> jsnum" where
  "jover (Fin a) c = round64 (a / c)"
| "jover PosInf c = PosInf"

text \<open>The order of numbers, and \<open>Math.min\<close>, \<open>Math.max\<close> of two numbers.\<close>

fun jle :: "jsnum \<Rightarrow> jsnum \<Rightarrow> bool" where
  "jle (Fin a) (Fin b) = (a \<le> b)"
| "jle _ PosInf = True"
| "jle PosInf (Fin b) = False"

definition jmin :: "jsnum \<Rightarrow> jsnum \<Rightarrow> jsnum" where
  "jmin a b = (if jle a b then a else b)"

definition jmax :: "jsnum \<Rightarrow> jsnum \<Rightarrow> jsnum" where
  "jmax a b = (if jle a b then b else a)"

text \<open>\<open>Math.round(x)\<close>: the nearest integer, a tie going up. It is exact.\<close>

fun mathRound :: "jsnum \<Rightarrow> jsnum" where
  "mathRound (Fin a) = Fin (of_int \<lfloor>a + 1 / 2\<rfloor>)"
| "mathRound PosInf = PosInf"

text \<open>\<open>Number.EPSILON = 2^-52\<close>\<close>

definition EPSILON :: jsnum where
  "EPSILON = Fin (2 powi (- 52))"

text \<open>
  \<open>parseFloat(s)\<close> for a string \<open>s\<close> of decimal digits with an optional fraction part:
  the decimal value, rounded to binary64.
\<close>

definition digitsValue :: "string \<Rightarrow> nat" where
  "digitsValue ds = fold (\<lambda>c n. 10 * n + (of_char c - 48)) ds 0"

definition parseFloat :: "string \<Rightarrow> jsnum" where
  "parseFloat s =
     (let ip = takeWhile isDigit s;
          fp = takeWhile isDigit (drop 1 (dropWhile isDigit s))
      in round64 (of_nat (digitsValue ip * 10 ^ length fp + digitsValue fp) / of_nat (10 ^ length fp)))"

section \<open>PriceParser\<close>

text \<open>
  \<open>priceText.match(/[\d]+\.\d{2}/g)\<close>: the matches from left to right, none overlapping.
  At a digit the greedy \<open>[\d]+\<close> takes the whole run of digits; giving digits back cannot
  help, because the next character would then be a digit and not the point. When the
  attempt fails the search goes on one character further; after a match it goes on behind
  the match.
\<close>

function matchPrices :: "string \<Rightarrow> string list" where
  "matchPrices [] = []"
| "matchPrices (c # cs) =
     (if isDigit c then
        (case dropWhile isDigit (c # cs) of
           p # a # b # rest \<Rightarrow>
             if p = CHR ''.'' \<and> isDigit a \<and> isDigit b
             then (takeWhile isDigit (c # cs) @ [p, a, b]) # matchPrices rest
             else matchPrices cs
         | _ \<Rightarrow> matchPrices cs)
      else matchPrices cs)"
  by pat_completeness auto
termination
  apply (relation "measure length")
     apply simp_all
  subgoal for c cs
    using length_dropWhile_le [of isDigit cs] by simp
  done

declare matchPrices.simps [simp del]

text \<open>
  The shape of a match: a non-empty run of digits, a point, then two digits and nothing
  more.
\<close>

definition priceShaped :: "string \<Rightarrow> bool" where
  "priceShaped s =
     (takeWhile isDigit s \<noteq> [] \<and>
      (case dropWhile isDigit s of
         [p, a, b] \<Rightarrow> p = CHR ''.'' \<and> isDigit a \<and> isDigit b
       | _ \<Rightarrow> False))"

text \<open>\<open>Math.min(...nums)\<close> and \<open>Math.max(...nums)\<close>, which the source calls on a
  non-empty array only; the values given for the empty list are never used.\<close>

fun mathMin :: "jsnum list \<Rightarrow> jsnum" where
  "mathMin [] = PosInf"
| "mathMin (x # xs) = fold (\<lambda>y acc. jmin acc y) xs x"

fun mathMax :: "jsnum list \<Rightarrow> jsnum" where
  "mathMax [] = Fin 0"
| "mathMax (x # xs) = fold (\<lambda>y acc. jmax acc y) xs x"

record parsedPrice =
  lo :: jsnum
  hi :: jsnum
  mid :: jsnum

definition priceParse :: "string \<Rightarrow> parsedPrice option" where
  "priceParse priceText =
     (let nums = map parseFloat (matchPrices priceText)
      in if nums = [] then None
         else let l = mathMin nums; h = mathMax nums
              in Some \<lparr>lo = l, hi = h, mid = jover (jadd l h) 2\<rparr>)"

text \<open>\<open>Math.round((parsed.mid * 0.5 + Number.EPSILON) * 100) / 100\<close>\<close>

definition fixedOffer :: "jsnum \<Rightarrow> jsnum" where
  "fixedOffer m = jover (mathRound (jtimes (jadd (jtimes m (1 / 2)) EPSILON) 100)) 100"

text \<open>
  The rounding that the specification names for the offer: to two decimal places, a tie
  going up, in exact arithmetic.
\<close>

definition spec_roundHalfUp2 :: "rat \<Rightarrow> rat" where
  "spec_roundHalfUp2 x = of_int \<lfloor>x * 100 + 1 / 2\<rfloor> / 100"

text \<open>
  \<open>+x.toFixed(2)\<close>: below \<open>10^21\<close> the decimal with two fraction digits nearest to the
  exact value of \<open>x\<close> (the larger one on a tie), read back as a number.
\<close>

fun toFixed2 :: "jsnum \<Rightarrow> jsnum" where
  "toFixed2 (Fin a) = (if a < 10 ^ 21 then round64 (of_int \<lfloor>a * 100 + 1 / 2\<rfloor> / 100) else Fin a)"
| "toFixed2 PosInf = PosInf"

section \<open>Listings and the catalog\<close>

record listing =
  name :: string
  price :: string

text \<open>
  The markup queries of the scraper belong to the cheerio library. They are a parameter
  \<open>select\<close>: for a page, the pair \<open>(nameText, priceText)\<close> of every selected element, in
  document order. \<open>server.js\<close> and the variant \<open>part_001\<close> keep a pair when the name is
  non-empty and the price text holds a dollar sign followed by a digit; \<open>extractItems\<close>
  is that test. The variant \<open>part_000\<close> keeps a pair when name and price text are
  non-empty and the price text holds a dollar sign (\<open>extractItems_dollar\<close>). No property
  below depends on which pairs are kept.
\<close>

type_synonym selector = "string \<Rightarrow> (string \<times> string) list"

definition extractItems :: "selector \<Rightarrow> string \<Rightarrow> listing list" where
  "extractItems select html =
     map (\<lambda>(n, p). \<lparr>name = n, price = p\<rparr>)
       (filter (\<lambda>(n, p). n \<noteq> [] \<and> dollarDigit p) (select html))"

definition extractItems_dollar :: "selector \<Rightarrow> string \<Rightarrow> listing list" where
  "extractItems_dollar select html =
     map (\<lambda>(n, p). \<lparr>name = n, price = p\<rparr>)
       (filter (\<lambda>(n, p). n \<noteq> [] \<and> p \<noteq> [] \<and> CHR ''$'' \<in> set p) (select html))"

text \<open>
  A JavaScript \<open>Map\<close> iterates in insertion order, and \<open>set\<close> on a key that is present
  replaces the value where it stands. The map is a list of pairs with distinct keys.
\<close>

fun mapSet :: "(string \<times> listing) list \<Rightarrow> string \<Rightarrow> listing \<Rightarrow> (string \<times> listing) list" where
  "mapSet [] k v = [(k, v)]"
| "mapSet ((k', v') # m) k v = (if k' = k then (k, v) # m else (k', v') # mapSet m k v)"

definition dedupStep :: "listing \<Rightarrow> (string \<times> listing) list \<Rightarrow> (string \<times> listing) list" where
  "dedupStep it byName =
     (let key = normalize_str (name it)
      in case map_of byName key of
           None \<Rightarrow> mapSet byName key it
         | Some old \<Rightarrow>
             if length (price old) < length (price it) then mapSet byName key it else byName)"

definition dedupe :: "listing list \<Rightarrow> listing list" where
  "dedupe items = map snd (fold dedupStep items [])"

text \<open>The keys of a list in the order in which each is seen first.\<close>

definition firstSeen :: "'a list \<Rightarrow> 'a list" where
  "firstSeen ks = rev (remdups (rev ks))"

text \<open>
  \<open>keptFor xs k v\<close>: the listing \<open>v\<close> has the key \<open>k\<close>, no listing of \<open>xs\<close> with
  that key has a longer price text, and \<open>v\<close> is the first of \<open>xs\<close> among those of that
  length.
\<close>

definition keptFor :: "listing list \<Rightarrow> string \<Rightarrow> listing \<Rightarrow> bool" where
  "keptFor xs k v =
     (normalize_str (name v) = k \<and>
      (\<exists>i<length xs. xs ! i = v \<and>
         (\<forall>j<i. normalize_str (name (xs ! j)) = k \<longrightarrow> length (price (xs ! j)) < length (price v))) \<and>
      (\<forall>x\<in>set xs. normalize_str (name x) = k \<longrightarrow> length (price x) \<le> length (price v)))"

section \<open>Cache and network\<close>

record cache =
  data :: "listing list option"
  fetchedAt :: int
  ttlMs :: int

definition initialCache :: cache where
  "initialCache = \<lparr>data = None, fetchedAt = 0, ttlMs = 5 * 60 * 1000\<rparr>"

text \<open>
  A call of \<open>fetch\<close> either yields a response or rejects. A response has a status and a
  body whose reading (\<open>res.text()\<close>) yields the text or rejects.
\<close>

record response =
  status :: nat
  body :: "string option"

datatype fetched = Responds response | Rejects string

definition ok :: "response \<Rightarrow> bool" where
  "ok res = (200 \<le> status res \<and> status res \<le> 299)"

datatype error =
    FetchFailed nat
  | HttpStatus nat
  | FailedToFetchPage nat
  | Rejected string
  | BodyRejected
  | NoResponse

text \<open>What an operation does to the outside: calls of \<open>fetch\<close> and timer waits (ms).\<close>

datatype event = FetchCall | Wait nat

section \<open>Catalog retrieval in \<open>server.js\<close>\<close>

text \<open>
  \<open>scrapeUsedPaddles\<close> of \<open>server.js\<close>, run without interleaving with another request.
  The arguments are the markup queries, what the one call of \<open>fetch\<close> would yield,
  \<open>Date.now()\<close> and the global \<open>CACHE\<close>; the result is the returned catalog or the
  thrown error, the new \<open>CACHE\<close> and the events. \<open>CACHE.data\<close> is truthy when it is an
  array, the empty array included.
\<close>

definition refresh :: "selector \<Rightarrow> fetched \<Rightarrow> error + listing list" where
  "refresh select f =
     (case f of
        Rejects msg \<Rightarrow> Inl (Rejected msg)
      | Responds res \<Rightarrow>
          if \<not> ok res then Inl (FetchFailed (status res))
          else (case body res of
                  None \<Rightarrow> Inl BodyRejected
                | Some html \<Rightarrow> Inr (dedupe (extractItems select html))))"

definition scrapeUsedPaddles ::
    "selector \<Rightarrow> fetched \<Rightarrow> int \<Rightarrow> cache \<Rightarrow> (error + listing list) \<times> cache \<times> event list" where
  "scrapeUsedPaddles select f now CACHE =
     (if data CACHE \<noteq> None \<and> now - fetchedAt CACHE < ttlMs CACHE
      then (Inr (the (data CACHE)), CACHE, [])
      else (case refresh select f of
              Inr new \<Rightarrow>
                (Inr new, \<lparr>data = Some new, fetchedAt = now, ttlMs = ttlMs CACHE\<rparr>, [FetchCall])
            | Inl err \<Rightarrow> (Inl err, CACHE, [FetchCall])))"

section \<open>Fetching with retries (the variant with \<open>fetchWithRetry\<close>)\<close>

text \<open>
  The network is a function from the number of the call of \<open>fetch\<close>, counted from 0, to
  what that call yields. One pass through the loop body of \<open>fetchWithRetry\<close> either ends
  the function or goes on to the next pass. The \<open>throw\<close> for a status that is not ok
  stands inside the \<open>try\<close> block, so the \<open>catch\<close> clause of the same pass receives it.
\<close>

type_synonym network = "nat \<Rightarrow> fetched"

datatype tried = Return response | Continue | Throw error

definition tryBlock :: "fetched \<Rightarrow> nat \<Rightarrow> nat \<Rightarrow> tried \<times> event list" where
  "tryBlock f retries i =
     (case f of
        Rejects msg \<Rightarrow> (Throw (Rejected msg), [FetchCall])
      | Responds res \<Rightarrow>
          if status res = 406 \<or> 500 \<le> status res then
            (if i = retries - 1 then (Return res, [FetchCall])
             else (Continue, [FetchCall, Wait (3000 * (i + 1))]))
          else if \<not> ok res then (Throw (HttpStatus (status res)), [FetchCall])
          else (Return res, [FetchCall]))"

datatype pass = Done "error + response option" | Next

definition loopBody :: "fetched \<Rightarrow> nat \<Rightarrow> nat \<Rightarrow> pass \<times> event list" where
  "loopBody f retries i =
     (case tryBlock f retries i of
        (Return res, evs) \<Rightarrow> (Done (Inr (Some res)), evs)
      | (Continue, evs) \<Rightarrow> (Next, evs)
      | (Throw err, evs) \<Rightarrow>
          if i = retries - 1 then (Done (Inl err), evs)
          else (Next, evs @ [Wait (3000 * (i + 1))]))"

function fetchLoop :: "network \<Rightarrow> nat \<Rightarrow> nat \<Rightarrow> (error + response option) \<times> event list" where
  "fetchLoop net retries i =
     (if i < retries then
        (case loopBody (net i) retries i of
           (Done r, evs) \<Rightarrow> (r, evs)
         | (Next, evs) \<Rightarrow>
             (case fetchLoop net retries (i + 1) of (r, evs') \<Rightarrow> (r, evs @ evs')))
      else (Inr None, []))"
  by pat_completeness auto
termination
  by (relation "measure (\<lambda>(net, retries, i). retries - i)") auto

declare fetchLoop.simps [simp del]

text \<open>\<open>fetchWithRetry(url, options, retries = 3)\<close>; \<open>Inr None\<close> is the value
  \<open>undefined\<close> that falls out of the loop when \<open>retries\<close> is 0.\<close>

definition fetchWithRetry :: "network \<Rightarrow> nat \<Rightarrow> (error + response option) \<times> event list" where
  "fetchWithRetry net retries = fetchLoop net retries 0"

text \<open>
  \<open>scrapeUsedPaddles\<close> of the variant with retries, with the keep test of
  \<open>part_001\<close>. The body is read before the status is checked. The \<open>catch\<close> clause
  returns \<open>CACHE.data\<close> when it is truthy and rethrows otherwise.
\<close>

definition refresh_retry :: "selector \<Rightarrow> network \<Rightarrow> (error + listing list) \<times> event list" where
  "refresh_retry select net =
     (case fetchWithRetry net 3 of
        (Inl err, evs) \<Rightarrow> (Inl err, evs)
      | (Inr None, evs) \<Rightarrow> (Inl NoResponse, evs)
      | (Inr (Some res), evs) \<Rightarrow>
          (case body res of
             None \<Rightarrow> (Inl BodyRejected, evs)
           | Some html \<Rightarrow>
               if \<not> ok res then (Inl (FailedToFetchPage (status res)), evs)
               else (Inr (dedupe (extractItems select html)), evs)))"

definition scrapeUsedPaddles_retry ::
    "selector \<Rightarrow> network \<Rightarrow> int \<Rightarrow> cache \<Rightarrow> (error + listing list) \<times> cache \<times> event list" where
  "scrapeUsedPaddles_retry select net now CACHE =
     (if data CACHE \<noteq> None \<and> now - fetchedAt CACHE < ttlMs CACHE
      then (Inr (the (data CACHE)), CACHE, [])
      else (case refresh_retry select net of
              (Inr new, evs) \<Rightarrow>
                (Inr new, \<lparr>data = Some new, fetchedAt = now, ttlMs = ttlMs CACHE\<rparr>, evs)
            | (Inl err, evs) \<Rightarrow>
                (case data CACHE of
                   Some stale \<Rightarrow> (Inr stale, CACHE, evs)
                 | None \<Rightarrow> (Inl err, CACHE, evs))))"

section \<open>Matcher in \<open>server.js\<close>\<close>

text \<open>
  The object that \<open>bestMatch\<close> returns is the listing with a \<open>score\<close> (substring phase)
  or a \<open>hits\<close> property (token phase) added.
\<close>

datatype matched = Matched (matchItem: listing) (matchScore: "nat option") (matchHits: "nat option")

text \<open>\<open>n.includes(q) || q.includes(n)\<close> and \<open>Math.min(n.length, q.length)\<close> for the
  normalized name \<open>n\<close> of an item.\<close>

definition containment :: "string \<Rightarrow> listing \<Rightarrow> bool" where
  "containment q item =
     (let n = normalize_str (name item) in str_includes n q \<or> str_includes q n)"

definition overlap :: "string \<Rightarrow> listing \<Rightarrow> nat" where
  "overlap q item = (let n = normalize_str (name item) in min (length n) (length q))"

fun substringLoop :: "string \<Rightarrow> listing list \<Rightarrow> (listing \<times> nat) option \<Rightarrow> (listing \<times> nat) option" where
  "substringLoop q [] candidate = candidate"
| "substringLoop q (item # rest) candidate =
     (if containment q item then
        (let score = overlap q item
         in if (case candidate of None \<Rightarrow> True | Some (c, cscore) \<Rightarrow> cscore < score)
            then substringLoop q rest (Some (item, score))
            else substringLoop q rest candidate)
      else substringLoop q rest candidate)"

definition tokenHits :: "string list \<Rightarrow> listing \<Rightarrow> nat" where
  "tokenHits qTokens item =
     (let n = normalize_str (name item) in length (filter (\<lambda>t. str_includes n t) qTokens))"

fun tokenLoop :: "string list \<Rightarrow> listing list \<Rightarrow> (listing \<times> nat) option \<Rightarrow> (listing \<times> nat) option" where
  "tokenLoop qTokens [] alt = alt"
| "tokenLoop qTokens (item # rest) alt =
     (let hits = tokenHits qTokens item
      in if 0 < hits \<and>
            (case alt of
               None \<Rightarrow> True
             | Some (a, ahits) \<Rightarrow>
                 ahits < hits \<or> (hits = ahits \<and> length (name a) < length (name item)))
         then tokenLoop qTokens rest (Some (item, hits))
         else tokenLoop qTokens rest alt)"

definition bestMatch :: "string \<Rightarrow> listing list \<Rightarrow> matched option" where
  "bestMatch model dataset =
     (let q = normalize_str model
      in if q = [] then None
         else (case substringLoop q dataset None of
                 Some (item, score) \<Rightarrow> Some (Matched item (Some score) None)
               | None \<Rightarrow>
                   (let qTokens = filter (\<lambda>t. t \<noteq> []) (split_space q)
                    in case tokenLoop qTokens dataset None of
                         Some (item, hits) \<Rightarrow> Some (Matched item None (Some hits))
                       | None \<Rightarrow> None)))"

text \<open>
  \<open>firstLongest q ds it\<close>: \<open>it\<close> is a containment match of \<open>ds\<close> for \<open>q\<close>, every
  containment match before it has a smaller overlap, and none after it has a larger one.
\<close>

definition firstLongest :: "string \<Rightarrow> listing list \<Rightarrow> listing \<Rightarrow> bool" where
  "firstLongest q ds it =
     (\<exists>pre post. ds = pre @ it # post \<and> containment q it \<and>
        (\<forall>x\<in>set pre. containment q x \<longrightarrow> overlap q x < overlap q it) \<and>
        (\<forall>x\<in>set post. containment q x \<longrightarrow> overlap q x \<le> overlap q it))"

section \<open>Matcher of the variant with aliases\<close>

definition ALIASES :: "(string \<times> string) list" where
  "ALIASES =
     [(''peresus pro 4'', ''peresus pro iv''),
      (''peresus pro iv'', ''peresus pro iv''),
      (''ben johns perseus'', ''peresus pro iv''),
      (''joola perseus'', ''peresus pro iv''),
      (''perseus pro'', ''peresus pro''),
      (''bantam exps'', ''bantam exps''),
      (''bantam xl'', ''bantam xl''),
      (''onyx pro'', ''onyx'')]"

text \<open>The loop over \<open>Object.entries(ALIASES)\<close> with its \<open>break\<close>.\<close>

fun aliasLoop :: "string \<Rightarrow> (string \<times> string) list \<Rightarrow> string" where
  "aliasLoop normalizedQuery [] = normalizedQuery"
| "aliasLoop normalizedQuery ((alias, target) # entries) =
     (if str_includes normalizedQuery alias then target else aliasLoop normalizedQuery entries)"

fun substringFirst :: "string \<Rightarrow> listing list \<Rightarrow> listing option" where
  "substringFirst normalizedQuery [] = None"
| "substringFirst normalizedQuery (item # rest) =
     (if containment normalizedQuery item then Some item else substringFirst normalizedQuery rest)"

fun tokenLoop_alias :: "string list \<Rightarrow> listing list \<Rightarrow> (listing \<times> nat) option \<Rightarrow> (listing \<times> nat) option" where
  "tokenLoop_alias qTokens [] best = best"
| "tokenLoop_alias qTokens (item # rest) best =
     (let hits = tokenHits qTokens item
      in if 0 < hits \<and> (case best of None \<Rightarrow> True | Some (b, bhits) \<Rightarrow> bhits < hits)
         then tokenLoop_alias qTokens rest (Some (item, hits))
         else tokenLoop_alias qTokens rest best)"

text \<open>The two phases that follow the alias rewrite.\<close>

definition matchPhases :: "string \<Rightarrow> listing list \<Rightarrow> matched option" where
  "matchPhases normalizedQuery dataset =
     (case substringFirst normalizedQuery dataset of
        Some item \<Rightarrow> Some (Matched item None None)
      | None \<Rightarrow>
          (let qTokens = filter (\<lambda>t. t \<noteq> []) (split_space normalizedQuery)
           in case tokenLoop_alias qTokens dataset None of
                Some (item, hits) \<Rightarrow> Some (Matched item None (Some hits))
              | None \<Rightarrow> None))"

definition bestMatch_alias :: "string \<Rightarrow> listing list \<Rightarrow> matched option" where
  "bestMatch_alias model dataset =
     (let q = normalize_str model
      in if q = [] then None else matchPhases (aliasLoop q ALIASES) dataset)"

section \<open>The offer request in \<open>server.js\<close>\<close>

text \<open>
  The fields of the request body are texts or missing, and a field is falsy when it is
  missing or the empty string. The replies are the five JSON bodies of the handler with
  their status codes.
\<close>

record request =
  model :: "string option"
  condition :: "string option"
  notes_field :: "string option"

record echo =
  submittedModel :: string
  echoCondition :: string
  echoNotes :: string

datatype reply =
    MissingFields
  | NotAvailable echo
  | PriceUnavailable echo
  | Offer jsnum string jsnum string echo
  | Failed

definition falsy :: "string option \<Rightarrow> bool" where
  "falsy v = (v = None \<or> v = Some [])"

definition echoOf :: "request \<Rightarrow> echo" where
  "echoOf req =
     \<lparr>submittedModel = the (model req), echoCondition = the (condition req),
      echoNotes = (if falsy (notes_field req) then [] else the (notes_field req))\<rparr>"

definition offerHandler ::
    "selector \<Rightarrow> fetched \<Rightarrow> int \<Rightarrow> cache \<Rightarrow> request \<Rightarrow> reply \<times> cache" where
  "offerHandler select f now CACHE req =
     (if falsy (model req) \<or> falsy (condition req) then (MissingFields, CACHE)
      else (case scrapeUsedPaddles select f now CACHE of
              (Inl err, CACHE', evs) \<Rightarrow> (Failed, CACHE')
            | (Inr dataset, CACHE', evs) \<Rightarrow>
                (case bestMatch (the (model req)) dataset of
                   None \<Rightarrow> (NotAvailable (echoOf req), CACHE')
                 | Some match \<Rightarrow>
                     (case priceParse (price (matchItem match)) of
                        None \<Rightarrow> (PriceUnavailable (echoOf req), CACHE')
                      | Some parsed \<Rightarrow>
                          (Offer (fixedOffer (mid parsed)) (price (matchItem match))
                             (toFixed2 (mid parsed)) (name (matchItem match)) (echoOf req),
                           CACHE')))))"

text \<open>The fields of a reply that the outcomes are told apart by.\<close>

fun statusCode :: "reply \<Rightarrow> nat" where
  "statusCode MissingFields = 400"
| "statusCode Failed = 500"
| "statusCode _ = 200"

fun replyFound :: "reply \<Rightarrow> bool option" where
  "replyFound (NotAvailable e) = Some False"
| "replyFound (PriceUnavailable e) = Some True"
| "replyFound (Offer v rp rm m e) = Some True"
| "replyFound _ = None"

fun replyOffer :: "reply \<Rightarrow> jsnum option" where
  "replyOffer (Offer v rp rm m e) = Some v"
| "replyOffer _ = None"

section \<open>Example inputs\<close>

definition noElements :: selector where
  "noElements html = []"

definition alwaysRejects :: network where
  "alwaysRejects i = Rejects ''ECONNRESET''"

definition notFoundThenOk :: network where
  "notFoundThenOk i =
     (if i = 0 then Responds \<lparr>status = 404, body = Some []\<rparr>
      else Responds \<lparr>status = 200, body = Some []\<rparr>)"

definition someCatalog :: "listing list" where
  "someCatalog = [\<lparr>name = ''Joola Perseus Pro IV'', price = ''$199.99''\<rparr>]"

definition usedAmped :: listing where
  "usedAmped = \<lparr>name = ''Selkirk  Amped'', price = ''$89.99''\<rparr>"

definition usedZ5 :: listing where
  "usedZ5 = \<lparr>name = ''Onix Z5'', price = ''$54.95''\<rparr>"

definition usedAmpedSale :: listing where
  "usedAmpedSale = \<lparr>name = ''selkirk amped'', price = ''$89.99 USD''\<rparr>"

definition listingPerseus :: listing where
  "listingPerseus = \<lparr>name = ''Perseus'', price = ''$120.00''\<rparr>"

definition listingPerseusProIV :: listing where
  "listingPerseusProIV = \<lparr>name = ''Perseus Pro IV'', price = ''$199.99''\<rparr>"

text \<open>A price text of 309 digits before the point: the number \<open>10^308\<close>.\<close>

definition hugePrice :: string where
  "hugePrice = CHR ''1'' # replicate 308 CHR ''0'' @ ''.00''"

definition listingPeresusProIV :: listing where
  "listingPeresusProIV = \<lparr>name = ''Peresus Pro IV'', price = ''$199.99''\<rparr>"

definition listing7999 :: listing where
  "listing7999 = \<lparr>name = ''Selkirk Amped S2'', price = ''$79.99''\<rparr>"

section \<open>Properties of the Normalizer\<close>

lemma lowerUnit_idem: "lowerUnit (lowerUnit c) = lowerUnit c"
  using nat_of_char_less_256 [of c]
  by (auto simp: lowerUnit_def Let_def)

lemma isWhite_lowerUnit: "isWhite (lowerUnit c) = isWhite c"
  using nat_of_char_less_256 [of c]
  by (auto simp: lowerUnit_def isWhite_def Let_def)

lemma lowerUnit_space: "lowerUnit CHR '' '' = CHR '' ''"
  by (simp add: lowerUnit_def)

lemma isWhite_space: "isWhite CHR '' ''"
  by (simp add: isWhite_def)

lemma dropWhile_lower:
  "dropWhile isWhite (map lowerUnit s) = map lowerUnit (dropWhile isWhite s)"
  by (induction s) (simp_all add: isWhite_lowerUnit)

lemma collapseWhite_lower: "collapseWhite (map lowerUnit s) = map lowerUnit (collapseWhite s)"
proof (induction s rule: collapseWhite.induct)
  case 1
  show ?case by simp
next
  case (2 c cs)
  then show ?case
    by (simp add: isWhite_lowerUnit lowerUnit_space dropWhile_lower)
qed

lemma trim_lower: "trim (map lowerUnit s) = map lowerUnit (trim s)"
  by (simp add: trim_def dropWhile_lower rev_map)

lemma spaced_collapseWhite: "spaced (collapseWhite s)"
proof (induction s rule: collapseWhite.induct)
  case 1
  show ?case by simp
next
  case (2 c cs)
  show ?case
  proof (cases "isWhite c")
    case True
    let ?r = "dropWhile isWhite cs"
    from True 2 have ih: "spaced (collapseWhite ?r)" by simp
    from True have eq: "collapseWhite (c # cs) = CHR '' '' # collapseWhite ?r" by simp
    show ?thesis
    proof (cases ?r)
      case Nil
      have "spaced [CHR '' '']" by simp
      then show ?thesis unfolding eq Nil by simp
    next
      case (Cons d ds)
      then have nd: "\<not> isWhite d" using hd_dropWhile [of isWhite cs] by simp
      from ih have "spaced (d # collapseWhite ds)" unfolding Cons using nd by simp
      then have "spaced (CHR '' '' # d # collapseWhite ds)" using nd by simp
      then show ?thesis unfolding eq Cons using nd by simp
    qed
  next
    case False
    with 2 have ih: "spaced (collapseWhite cs)" by simp
    with False show ?thesis by (cases "collapseWhite cs") simp_all
  qed
qed

lemma collapseWhite_spaced: "spaced s \<Longrightarrow> collapseWhite s = s"
  by (induction s rule: spaced.induct) auto

lemma spaced_tl: "spaced (c # cs) \<Longrightarrow> spaced cs"
  by (cases cs) simp_all

lemma spaced_dropWhile: "spaced s \<Longrightarrow> spaced (dropWhile P s)"
  by (induction s) (auto dest: spaced_tl)

lemma spaced_prefix: "spaced (xs @ ys) \<Longrightarrow> spaced xs"
proof (induction xs rule: spaced.induct)
  case 1
  show ?case by simp
next
  case (2 c)
  then show ?case by (cases ys) simp_all
next
  case (3 c d cs)
  then show ?case by simp
qed

lemma rev_dropWhile_prefix:
  "s = rev (dropWhile P (rev s)) @ rev (takeWhile P (rev s))"
  by (metis rev_append rev_rev_ident takeWhile_dropWhile_id)

lemma spaced_trim: "spaced s \<Longrightarrow> spaced (trim s)"
  unfolding trim_def
  by (metis rev_dropWhile_prefix spaced_dropWhile spaced_prefix)

lemma trim_idem: "trim (trim s) = trim s"
proof -
  let ?y = "dropWhile isWhite s"
  let ?z = "rev (dropWhile isWhite (rev ?y))"
  have y: "?y = ?z @ rev (takeWhile isWhite (rev ?y))" by (rule rev_dropWhile_prefix)
  have "dropWhile isWhite ?z = ?z"
  proof (cases ?z)
    case Nil
    show ?thesis unfolding Nil by simp
  next
    case (Cons a as)
    with y have "?y \<noteq> []" "hd ?y = a"
      by (metis Nil_is_append_conv list.distinct(1), metis hd_append2 list.distinct(1) list.sel(1))
    then have "\<not> isWhite a" using hd_dropWhile [of isWhite s] by simp
    then show ?thesis unfolding Cons by simp
  qed
  then show ?thesis by (simp add: trim_def)
qed

text \<open>
  C9. \<open>normalize\<close> is idempotent: for every string \<open>x\<close> (of code units below 256),
  \<open>normalize(normalize(x))\<close> equals \<open>normalize(x)\<close>.
\<close>

theorem normalize_idempotent: "normalize_str (normalize_str x) = normalize_str x"
proof -
  let ?t = "trim (collapseWhite x)"
  have n: "normalize_str x = map lowerUnit ?t"
    by (simp add: normalize_str_def toLowerCase_def collapseWhite_lower trim_lower)
  have "spaced ?t" by (simp add: spaced_collapseWhite spaced_trim)
  then have "collapseWhite ?t = ?t" by (rule collapseWhite_spaced)
  then have "trim (collapseWhite ?t) = ?t" by (simp add: trim_idem)
  then have "normalize_str (map lowerUnit ?t) = map lowerUnit ?t"
    by (simp add: normalize_str_def toLowerCase_def collapseWhite_lower trim_lower
        lowerUnit_idem comp_def)
  with n show ?thesis by simp
qed

lemma normalize_white:
  assumes "\<forall>c\<in>set s. isWhite c"
  shows "normalize_str s = []"
proof (cases s)
  case Nil
  then show ?thesis by (simp add: normalize_str_def toLowerCase_def trim_def)
next
  case (Cons c cs)
  let ?l = "map lowerUnit cs"
  from assms Cons have w: "isWhite (lowerUnit c)" "\<forall>x\<in>set ?l. isWhite x"
    by (simp_all add: isWhite_lowerUnit)
  then have d: "dropWhile isWhite ?l = []" by simp
  have "collapseWhite (lowerUnit c # ?l) = CHR '' '' # collapseWhite (dropWhile isWhite ?l)"
    using w(1) by simp
  then have "collapseWhite (lowerUnit c # ?l) = [CHR '' '']" unfolding d by simp
  then show ?thesis
    by (simp add: normalize_str_def toLowerCase_def trim_def Cons isWhite_def)
qed

section \<open>Properties of the Cache\<close>

lemma tryBlock_events: "\<exists>t evs. tryBlock f retries i = (t, FetchCall # evs)"
  by (cases f) (auto simp: tryBlock_def)

lemma loopBody_events: "\<exists>p evs. loopBody f retries i = (p, FetchCall # evs)"
proof -
  obtain t evs where "tryBlock f retries i = (t, FetchCall # evs)"
    using tryBlock_events by blast
  then show ?thesis by (cases t) (auto simp: loopBody_def)
qed

lemma fetchLoop_events:
  assumes "i < retries"
  shows "\<exists>r evs. fetchLoop net retries i = (r, FetchCall # evs)"
proof -
  obtain p evs where b: "loopBody (net i) retries i = (p, FetchCall # evs)"
    using loopBody_events by blast
  show ?thesis
    using assms b by (cases p) (auto simp: fetchLoop.simps [of net retries i] split: prod.splits)
qed

lemma refresh_retry_events: "\<exists>r evs. refresh_retry select net = (r, FetchCall # evs)"
proof -
  obtain r evs where "fetchLoop net 3 0 = (r, FetchCall # evs)"
    using fetchLoop_events [of 0 3 net] by auto
  then show ?thesis
    by (auto simp: refresh_retry_def fetchWithRetry_def split: sum.splits option.splits)
qed

text \<open>
  C5. For every cache state that holds a catalog and every current time \<open>now\<close>, the
  catalog retrieval returns the cached catalog, leaves the cache unchanged and makes no
  call of \<open>fetch\<close> exactly when \<open>now - fetchedAt < ttl\<close>; otherwise it calls \<open>fetch\<close>.
  With \<open>ttl = 300000\<close> a lookup at \<open>fetchedAt + 299999\<close> is a hit and a lookup at
  \<open>fetchedAt + 300001\<close> calls \<open>fetch\<close>. This holds in \<open>server.js\<close> and in the variant
  with retries alike.
\<close>

theorem cache_hit_iff_fresh:
  assumes "data CACHE = Some d"
  shows "(now - fetchedAt CACHE < ttlMs CACHE \<longrightarrow>
            scrapeUsedPaddles select f now CACHE = (Inr d, CACHE, []) \<and>
            scrapeUsedPaddles_retry select net now CACHE = (Inr d, CACHE, [])) \<and>
         (\<not> now - fetchedAt CACHE < ttlMs CACHE \<longrightarrow>
            FetchCall \<in> set (snd (snd (scrapeUsedPaddles select f now CACHE))) \<and>
            FetchCall \<in> set (snd (snd (scrapeUsedPaddles_retry select net now CACHE)))) \<and>
         (ttlMs CACHE = 300000 \<longrightarrow>
            scrapeUsedPaddles select f (fetchedAt CACHE + 299999) CACHE = (Inr d, CACHE, []) \<and>
            scrapeUsedPaddles_retry select net (fetchedAt CACHE + 299999) CACHE = (Inr d, CACHE, []) \<and>
            FetchCall \<in> set (snd (snd (scrapeUsedPaddles select f (fetchedAt CACHE + 300001) CACHE))) \<and>
            FetchCall \<in> set (snd (snd (scrapeUsedPaddles_retry select net (fetchedAt CACHE + 300001) CACHE))))"
proof -
  have hit: "scrapeUsedPaddles select f t CACHE = (Inr d, CACHE, []) \<and>
             scrapeUsedPaddles_retry select net t CACHE = (Inr d, CACHE, [])"
    if "t - fetchedAt CACHE < ttlMs CACHE" for t
    using that assms by (simp add: scrapeUsedPaddles_def scrapeUsedPaddles_retry_def)
  have miss1: "FetchCall \<in> set (snd (snd (scrapeUsedPaddles select f t CACHE)))"
    if "\<not> t - fetchedAt CACHE < ttlMs CACHE" for t
    using that by (simp add: scrapeUsedPaddles_def split: sum.splits)
  have miss2: "FetchCall \<in> set (snd (snd (scrapeUsedPaddles_retry select net t CACHE)))"
    if "\<not> t - fetchedAt CACHE < ttlMs CACHE" for t
  proof -
    obtain r evs where "refresh_retry select net = (r, FetchCall # evs)"
      using refresh_retry_events by blast
    with that show ?thesis
      by (cases r) (auto simp: scrapeUsedPaddles_retry_def split: option.splits)
  qed
  show ?thesis using hit miss1 miss2 by simp
qed

theorem cache_hit_iff_fresh_witness:
  "scrapeUsedPaddles noElements (Rejects ''ECONNRESET'') 300999
      \<lparr>data = Some someCatalog, fetchedAt = 1000, ttlMs = 300000\<rparr> =
     (Inr someCatalog, \<lparr>data = Some someCatalog, fetchedAt = 1000, ttlMs = 300000\<rparr>, []) \<and>
   FetchCall \<in> set (snd (snd (scrapeUsedPaddles_retry noElements alwaysRejects 301001
      \<lparr>data = Some someCatalog, fetchedAt = 1000, ttlMs = 300000\<rparr>)))"
proof -
  let ?C = "\<lparr>data = Some someCatalog, fetchedAt = 1000, ttlMs = 300000\<rparr>"
  have h: "data ?C = Some someCatalog" by simp
  from cache_hit_iff_fresh [OF h, of 300999 noElements "Rejects ''ECONNRESET''" alwaysRejects]
    cache_hit_iff_fresh [OF h, of 301001 noElements "Rejects ''ECONNRESET''" alwaysRejects]
  show ?thesis by simp
qed

text \<open>
  C1, as amended. When a refresh is attempted (the cache holds no catalog or the catalog
  has expired) and the refresh fails: in the variant with retries the catalog retrieval
  returns the previous catalog if the cache holds one (an array, the empty one included)
  and does not propagate the failure, leaving the cache as it was, and throws the failure
  to the caller if the cache holds none; in \<open>server.js\<close> the catalog retrieval throws
  the failure to the caller whatever the cache holds.
\<close>

theorem stale_fallback:
  assumes "\<not> (data CACHE \<noteq> None \<and> now - fetchedAt CACHE < ttlMs CACHE)"
  shows "(refresh_retry select net = (Inl err, evs) \<longrightarrow>
            (\<forall>d. data CACHE = Some d \<longrightarrow>
               scrapeUsedPaddles_retry select net now CACHE = (Inr d, CACHE, evs)) \<and>
            (data CACHE = None \<longrightarrow>
               scrapeUsedPaddles_retry select net now CACHE = (Inl err, CACHE, evs))) \<and>
         (refresh select f = Inl err' \<longrightarrow>
            scrapeUsedPaddles select f now CACHE = (Inl err', CACHE, [FetchCall]))"
  using assms by (auto simp: scrapeUsedPaddles_retry_def scrapeUsedPaddles_def)

text \<open>
  C1 as stated fails in \<open>server.js\<close>: with a previous catalog in the cache that has
  expired and a rejected \<open>fetch\<close>, the catalog retrieval throws.
\<close>

theorem stale_fallback_counterexample:
  "scrapeUsedPaddles noElements (Rejects ''ECONNRESET'') 301001
      \<lparr>data = Some someCatalog, fetchedAt = 1000, ttlMs = 300000\<rparr> =
     (Inl (Rejected ''ECONNRESET''),
      \<lparr>data = Some someCatalog, fetchedAt = 1000, ttlMs = 300000\<rparr>, [FetchCall])"
  by (simp add: scrapeUsedPaddles_def refresh_def)

lemma refresh_retry_alwaysRejects:
  "refresh_retry select alwaysRejects =
     (Inl (Rejected ''ECONNRESET''), [FetchCall, Wait 3000, FetchCall, Wait 6000, FetchCall])"
  by (simp add: refresh_retry_def fetchWithRetry_def fetchLoop.simps [of _ _ 0]
      fetchLoop.simps [of _ _ "Suc 0"] fetchLoop.simps [of _ _ "Suc (Suc 0)"] loopBody_def tryBlock_def alwaysRejects_def)

theorem stale_fallback_witness:
  "scrapeUsedPaddles_retry noElements alwaysRejects 301001
      \<lparr>data = Some someCatalog, fetchedAt = 1000, ttlMs = 300000\<rparr> =
     (Inr someCatalog, \<lparr>data = Some someCatalog, fetchedAt = 1000, ttlMs = 300000\<rparr>,
      [FetchCall, Wait 3000, FetchCall, Wait 6000, FetchCall]) \<and>
   scrapeUsedPaddles_retry noElements alwaysRejects 301001
      \<lparr>data = Some [], fetchedAt = 1000, ttlMs = 300000\<rparr> =
     (Inr [], \<lparr>data = Some [], fetchedAt = 1000, ttlMs = 300000\<rparr>,
      [FetchCall, Wait 3000, FetchCall, Wait 6000, FetchCall]) \<and>
   scrapeUsedPaddles_retry noElements alwaysRejects 301001 initialCache =
     (Inl (Rejected ''ECONNRESET''), initialCache,
      [FetchCall, Wait 3000, FetchCall, Wait 6000, FetchCall]) \<and>
   scrapeUsedPaddles noElements (Rejects ''ECONNRESET'') 301001 initialCache =
     (Inl (Rejected ''ECONNRESET''), initialCache, [FetchCall])"
proof -
  let ?C = "\<lparr>data = Some someCatalog, fetchedAt = 1000, ttlMs = 300000\<rparr>"
  let ?E = "\<lparr>data = Some [], fetchedAt = 1000, ttlMs = 300000\<rparr>"
  have h1: "\<not> (data ?C \<noteq> None \<and> 301001 - fetchedAt ?C < ttlMs ?C)" by simp
  have h2: "\<not> (data ?E \<noteq> None \<and> 301001 - fetchedAt ?E < ttlMs ?E)" by simp
  have h3: "\<not> (data initialCache \<noteq> None \<and> 301001 - fetchedAt initialCache < ttlMs initialCache)"
    by (simp add: initialCache_def)
  have r: "refresh noElements (Rejects ''ECONNRESET'') = Inl (Rejected ''ECONNRESET'')"
    by (simp add: refresh_def)
  note inst = stale_fallback [where select = noElements and net = alwaysRejects
      and err = "Rejected ''ECONNRESET''"
      and evs = "[FetchCall, Wait 3000, FetchCall, Wait 6000, FetchCall]"
      and f = "Rejects ''ECONNRESET''" and err' = "Rejected ''ECONNRESET''"]
  from inst [OF h1] inst [OF h2] inst [OF h3] refresh_retry_alwaysRejects [of noElements] r
  show ?thesis by (simp add: initialCache_def)
qed

section \<open>Properties of the Fetcher\<close>

text \<open>
  A response whose status is neither ok, nor 406, nor 500 or more makes the \<open>try\<close> block
  throw, and on every pass but the last the \<open>catch\<close> clause waits and lets the loop go on.
\<close>

lemma loopBody_other_status:
  assumes "\<not> ok res" "status res \<noteq> 406" "status res < 500" "i \<noteq> retries - 1"
  shows "loopBody (Responds res) retries i = (Next, [FetchCall, Wait (3000 * (i + 1))])"
  using assms by (simp add: loopBody_def tryBlock_def)

text \<open>
  C7. The claim: a response whose status is neither successful, nor 406, nor 500 or more
  ends \<open>fetchWithRetry\<close> as a failure at once, with no further attempt and no wait.
  The code at a 404 on the first attempt followed by a 200: it waits 3000 ms, calls
  \<open>fetch\<close> again and returns the second response.
\<close>

theorem fetchWithRetry_retries_404:
  "fetchWithRetry notFoundThenOk 3 =
     (Inr (Some \<lparr>status = 200, body = Some []\<rparr>), [FetchCall, Wait 3000, FetchCall])"
  by (simp add: fetchWithRetry_def fetchLoop.simps [of _ _ 0] fetchLoop.simps [of _ _ "Suc 0"] loopBody_def tryBlock_def notFoundThenOk_def ok_def)

section \<open>Properties of the alias rewrite\<close>

lemma aliasLoop_first:
  assumes "i < length tbl" "str_includes q (fst (tbl ! i))"
    and "\<forall>j<i. \<not> str_includes q (fst (tbl ! j))"
  shows "aliasLoop q tbl = snd (tbl ! i)"
  using assms
proof (induction tbl arbitrary: i)
  case Nil
  then show ?case by simp
next
  case (Cons e tbl)
  obtain a t where e: "e = (a, t)" by (cases e)
  show ?case
  proof (cases i)
    case 0
    with Cons.prems e show ?thesis by simp
  next
    case (Suc k)
    with Cons.prems have "\<not> str_includes q a" using e by auto
    moreover have "aliasLoop q tbl = snd (tbl ! k)"
      using Cons.prems Suc by (intro Cons.IH) auto
    ultimately show ?thesis using e Suc by simp
  qed
qed

lemma aliasLoop_none:
  assumes "\<forall>j<length tbl. \<not> str_includes q (fst (tbl ! j))"
  shows "aliasLoop q tbl = q"
  using assms
proof (induction tbl)
  case Nil
  show ?case by simp
next
  case (Cons e tbl)
  obtain a t where e: "e = (a, t)" by (cases e)
  from Cons.prems have "\<not> str_includes q a" using e by auto
  moreover have "aliasLoop q tbl = q"
    using Cons.prems by (intro Cons.IH) auto
  ultimately show ?case using e by simp
qed

lemma normalize_ben: "normalize_str ''ben johns perseus'' = ''ben johns perseus''"
  by (simp add: normalize_str_def toLowerCase_def lowerUnit_def isWhite_def trim_def)

lemma alias_ben: "aliasLoop ''ben johns perseus'' ALIASES = ''peresus pro iv''"
  by (simp add: ALIASES_def)

text \<open>
  C8, as amended. In the variant with aliases the matcher rewrites the normalized query
  with the fixed alias table before the substring phase: the first key of the table, in
  table order, that the query contains decides and gives its target; when the query
  contains no key it stays as it is; the two phases then run on the rewritten query. The
  query \<open>ben johns perseus\<close> is rewritten to \<open>peresus pro iv\<close>, for every catalog. The
  matcher of \<open>server.js\<close> has no alias table: its substring phase and its token phase
  run on the normalized query as it is.
\<close>

theorem alias_rewrite_first_wins:
  "(\<forall>i<length ALIASES.
       str_includes q (fst (ALIASES ! i)) \<and> (\<forall>j<i. \<not> str_includes q (fst (ALIASES ! j)))
       \<longrightarrow> aliasLoop q ALIASES = snd (ALIASES ! i)) \<and>
   ((\<forall>j<length ALIASES. \<not> str_includes q (fst (ALIASES ! j))) \<longrightarrow> aliasLoop q ALIASES = q) \<and>
   (normalize_str m \<noteq> [] \<longrightarrow>
      bestMatch_alias m dataset = matchPhases (aliasLoop (normalize_str m) ALIASES) dataset) \<and>
   aliasLoop ''ben johns perseus'' ALIASES = ''peresus pro iv'' \<and>
   bestMatch_alias ''ben johns perseus'' dataset = matchPhases ''peresus pro iv'' dataset \<and>
   (normalize_str m \<noteq> [] \<longrightarrow>
      bestMatch m dataset =
        (case substringLoop (normalize_str m) dataset None of
           Some (item, score) \<Rightarrow> Some (Matched item (Some score) None)
         | None \<Rightarrow>
             (case tokenLoop (filter (\<lambda>t. t \<noteq> []) (split_space (normalize_str m))) dataset None of
                Some (item, hits) \<Rightarrow> Some (Matched item None (Some hits))
              | None \<Rightarrow> None)))"
proof -
  have a: "(\<forall>i<length ALIASES.
       str_includes q (fst (ALIASES ! i)) \<and> (\<forall>j<i. \<not> str_includes q (fst (ALIASES ! j)))
       \<longrightarrow> aliasLoop q ALIASES = snd (ALIASES ! i)) \<and>
     ((\<forall>j<length ALIASES. \<not> str_includes q (fst (ALIASES ! j))) \<longrightarrow> aliasLoop q ALIASES = q) \<and>
     (normalize_str m \<noteq> [] \<longrightarrow>
        bestMatch_alias m dataset = matchPhases (aliasLoop (normalize_str m) ALIASES) dataset) \<and>
     aliasLoop ''ben johns perseus'' ALIASES = ''peresus pro iv'' \<and>
     bestMatch_alias ''ben johns perseus'' dataset = matchPhases ''peresus pro iv'' dataset"
    using aliasLoop_first [of _ ALIASES q] aliasLoop_none [of ALIASES q]
    by (simp add: bestMatch_alias_def normalize_ben alias_ben Let_def)
  have b: "normalize_str m \<noteq> [] \<longrightarrow>
      bestMatch m dataset =
        (case substringLoop (normalize_str m) dataset None of
           Some (item, score) \<Rightarrow> Some (Matched item (Some score) None)
         | None \<Rightarrow>
             (case tokenLoop (filter (\<lambda>t. t \<noteq> []) (split_space (normalize_str m))) dataset None of
                Some (item, hits) \<Rightarrow> Some (Matched item None (Some hits))
              | None \<Rightarrow> None))"
    by (simp add: bestMatch_def Let_def split: option.splits)
  from a b show ?thesis by blast
qed

text \<open>
  C8 as stated fails in \<open>server.js\<close>: on a catalog that lists \<open>Peresus Pro IV\<close> the
  query \<open>ben johns perseus\<close> finds nothing there, while the two phases on the rewritten
  query, and so the variant with aliases, find the listing.
\<close>

theorem alias_rewrite_counterexample:
  "bestMatch ''ben johns perseus'' [listingPeresusProIV] = None \<and>
   matchPhases ''peresus pro iv'' [listingPeresusProIV] =
     Some (Matched listingPeresusProIV None None) \<and>
   bestMatch_alias ''ben johns perseus'' [listingPeresusProIV] =
     Some (Matched listingPeresusProIV None None)"
  by code_simp

theorem alias_rewrite_first_wins_witness:
  "aliasLoop ''joola perseus pro'' ALIASES = ''peresus pro iv'' \<and>
   aliasLoop ''selkirk vanguard'' ALIASES = ''selkirk vanguard'' \<and>
   bestMatch_alias ''Ben Johns  Perseus'' [listingPeresusProIV] =
     matchPhases ''peresus pro iv'' [listingPeresusProIV]"
proof -
  have h1: "(3::nat) < length ALIASES" by (simp add: ALIASES_def)
  have h2: "str_includes ''joola perseus pro'' (fst (ALIASES ! 3))" by (simp add: ALIASES_def)
  have h3: "\<forall>j<3. \<not> str_includes ''joola perseus pro'' (fst (ALIASES ! j))"
    by (simp add: ALIASES_def eval_nat_numeral less_Suc_eq)
  have "\<forall>e\<in>set ALIASES. \<not> str_includes ''selkirk vanguard'' (fst e)"
    by (simp add: ALIASES_def)
  then have h4: "\<forall>j<length ALIASES. \<not> str_includes ''selkirk vanguard'' (fst (ALIASES ! j))"
    by simp
  have n: "normalize_str ''Ben Johns  Perseus'' = ''ben johns perseus''" by code_simp
  from alias_rewrite_first_wins [of "''joola perseus pro''" "[]" "[]"] h1 h2 h3
  have a: "aliasLoop ''joola perseus pro'' ALIASES = snd (ALIASES ! 3)" by blast
  from alias_rewrite_first_wins [of "''selkirk vanguard''" "[]" "[]"] h4
  have b: "aliasLoop ''selkirk vanguard'' ALIASES = ''selkirk vanguard''" by blast
  from alias_rewrite_first_wins [of "''ben johns perseus''" "''Ben Johns  Perseus''"
      "[listingPeresusProIV]"] n
  have c: "bestMatch_alias ''Ben Johns  Perseus'' [listingPeresusProIV] =
      matchPhases ''peresus pro iv'' [listingPeresusProIV]"
    by simp
  from a b c show ?thesis by (simp add: ALIASES_def)
qed

section \<open>Properties of the offer request\<close>

text \<open>
  C10, as amended. For every request whose \<open>model\<close> is a non-empty string of white space
  only and whose \<open>condition\<close> is a non-empty string, validation passes and the matcher
  normalizes the query to the empty string and finds no match in any catalog. When the
  catalog retrieval returns a catalog, the reply is the success outcome with
  \<open>found = false\<close> and \<open>offer = null\<close>; when the catalog retrieval throws, the reply is the
  failure with status 500.
\<close>

theorem whitespace_model_reply:
  assumes "model req = Some m" "m \<noteq> []" "\<forall>c\<in>set m. isWhite c" "\<not> falsy (condition req)"
  shows "normalize_str m = [] \<and> bestMatch m dataset = None \<and>
         fst (offerHandler select f now CACHE req) \<noteq> MissingFields \<and>
         (\<forall>ds C evs. scrapeUsedPaddles select f now CACHE = (Inr ds, C, evs) \<longrightarrow>
            offerHandler select f now CACHE req = (NotAvailable (echoOf req), C) \<and>
            statusCode (fst (offerHandler select f now CACHE req)) = 200 \<and>
            replyFound (fst (offerHandler select f now CACHE req)) = Some False \<and>
            replyOffer (fst (offerHandler select f now CACHE req)) = None) \<and>
         (\<forall>err C evs. scrapeUsedPaddles select f now CACHE = (Inl err, C, evs) \<longrightarrow>
            offerHandler select f now CACHE req = (Failed, C))"
proof -
  have n: "normalize_str m = []" using assms(3) by (rule normalize_white)
  then have b: "bestMatch m ds = None" for ds by (simp add: bestMatch_def)
  have v: "\<not> (falsy (model req) \<or> falsy (condition req))"
    using assms by (simp add: falsy_def)
  obtain r C evs where s: "scrapeUsedPaddles select f now CACHE = (r, C, evs)"
    by (cases "scrapeUsedPaddles select f now CACHE") auto
  show ?thesis
    using n b v s assms(1) by (cases r) (simp_all add: offerHandler_def)
qed

text \<open>
  C10 as stated fails when the catalog retrieval throws: with an empty cache and a
  rejected \<open>fetch\<close> the reply has status 500 and no \<open>found\<close> field.
\<close>

theorem whitespace_model_counterexample:
  "statusCode (fst (offerHandler noElements (Rejects ''ECONNRESET'') 0 initialCache
      \<lparr>model = Some '' '', condition = Some ''good'', notes_field = None\<rparr>)) = 500 \<and>
   replyFound (fst (offerHandler noElements (Rejects ''ECONNRESET'') 0 initialCache
      \<lparr>model = Some '' '', condition = Some ''good'', notes_field = None\<rparr>)) \<noteq> Some False"
  by (simp add: offerHandler_def falsy_def scrapeUsedPaddles_def refresh_def initialCache_def)

theorem whitespace_model_reply_witness:
  "offerHandler noElements (Responds \<lparr>status = 200, body = Some []\<rparr>) 0 initialCache
      \<lparr>model = Some '' '', condition = Some ''good'', notes_field = None\<rparr> =
     (NotAvailable \<lparr>submittedModel = '' '', echoCondition = ''good'', echoNotes = []\<rparr>,
      \<lparr>data = Some [], fetchedAt = 0, ttlMs = 300000\<rparr>)"
proof -
  let ?req = "\<lparr>model = Some '' '', condition = Some ''good'', notes_field = None\<rparr>"
  have h1: "model ?req = Some '' ''" by simp
  have h2: "'' '' \<noteq> []" by simp
  have h3: "\<forall>c\<in>set '' ''. isWhite c" by (simp add: isWhite_def)
  have h4: "\<not> falsy (condition ?req)" by (simp add: falsy_def)
  have s: "scrapeUsedPaddles noElements (Responds \<lparr>status = 200, body = Some []\<rparr>) 0 initialCache =
      (Inr [], \<lparr>data = Some [], fetchedAt = 0, ttlMs = 300000\<rparr>, [FetchCall])"
    by (simp add: scrapeUsedPaddles_def refresh_def initialCache_def ok_def dedupe_def
        extractItems_def noElements_def)
  from whitespace_model_reply [OF h1 h2 h3 h4, of "[]" noElements
      "Responds \<lparr>status = 200, body = Some []\<rparr>" 0 initialCache] s
  show ?thesis by (simp add: echoOf_def falsy_def)
qed

section \<open>Properties of the catalog\<close>

lemma mapSet_new: "k \<notin> fst ` set m \<Longrightarrow> mapSet m k v = m @ [(k, v)]"
  by (induction m) auto

lemma mapSet_keys: "k \<in> fst ` set m \<Longrightarrow> map fst (mapSet m k v) = map fst m"
proof (induction m)
  case Nil
  then show ?case by simp
next
  case (Cons e m)
  obtain a b where e: "e = (a, b)" by (cases e)
  show ?case
  proof (cases "a = k")
    case True
    with e show ?thesis by simp
  next
    case False
    with Cons.prems e have "k \<in> fst ` set m" by auto
    with Cons.IH e False show ?thesis by simp
  qed
qed

lemma mapSet_mem:
  assumes "distinct (map fst m)" "(k', v') \<in> set (mapSet m k v)"
  shows "(k' = k \<and> v' = v) \<or> ((k', v') \<in> set m \<and> k' \<noteq> k)"
  using assms
proof (induction m)
  case Nil
  then show ?case by simp
next
  case (Cons e m)
  obtain a b where e: "e = (a, b)" by (cases e)
  show ?case
  proof (cases "a = k")
    case True
    with Cons.prems e have "k \<notin> fst ` set m" by simp
    then have "k' \<noteq> k" if "(k', v') \<in> set m" using that by force
    moreover from Cons.prems(2) True e have "(k', v') = (k, v) \<or> (k', v') \<in> set m" by simp
    ultimately show ?thesis by auto
  next
    case False
    with Cons.prems(2) e have "(k', v') = (a, b) \<or> (k', v') \<in> set (mapSet m k v)" by simp
    then show ?thesis
    proof
      assume "(k', v') = (a, b)"
      with False e show ?thesis by simp
    next
      assume "(k', v') \<in> set (mapSet m k v)"
      moreover from Cons.prems(1) have "distinct (map fst m)" by simp
      ultimately have "(k' = k \<and> v' = v) \<or> ((k', v') \<in> set m \<and> k' \<noteq> k)"
        by (intro Cons.IH)
      then show ?thesis by auto
    qed
  qed
qed

lemma firstSeen_snoc:
  "firstSeen (ks @ [k]) = (if k \<in> set ks then firstSeen ks else firstSeen ks @ [k])"
  by (simp add: firstSeen_def)

lemma set_firstSeen: "set (firstSeen ks) = set ks"
  by (simp add: firstSeen_def)

lemma distinct_firstSeen: "distinct (firstSeen ks)"
  by (simp add: firstSeen_def)

lemma keptFor_snoc_other:
  assumes "keptFor xs k v" "normalize_str (name x) \<noteq> k \<or> length (price x) \<le> length (price v)"
  shows "keptFor (xs @ [x]) k v"
proof -
  from assms(1) obtain i where i: "i < length xs" "xs ! i = v"
    "\<forall>j<i. normalize_str (name (xs ! j)) = k \<longrightarrow> length (price (xs ! j)) < length (price v)"
    and k: "normalize_str (name v) = k"
    and mx: "\<forall>y\<in>set xs. normalize_str (name y) = k \<longrightarrow> length (price y) \<le> length (price v)"
    by (auto simp: keptFor_def)
  have "(xs @ [x]) ! i = v" using i by (simp add: nth_append)
  moreover have "\<forall>j<i. normalize_str (name ((xs @ [x]) ! j)) = k \<longrightarrow>
      length (price ((xs @ [x]) ! j)) < length (price v)"
    using i by (simp add: nth_append)
  moreover have "i < length (xs @ [x])" using i by simp
  ultimately have ex: "\<exists>i<length (xs @ [x]). (xs @ [x]) ! i = v \<and>
     (\<forall>j<i. normalize_str (name ((xs @ [x]) ! j)) = k \<longrightarrow>
        length (price ((xs @ [x]) ! j)) < length (price v))"
    by blast
  have "\<forall>y\<in>set (xs @ [x]). normalize_str (name y) = k \<longrightarrow> length (price y) \<le> length (price v)"
    using mx assms(2) by auto
  with ex k show ?thesis unfolding keptFor_def by blast
qed

lemma keptFor_snoc_new:
  assumes "\<forall>y\<in>set xs. normalize_str (name y) = normalize_str (name x) \<longrightarrow>
      length (price y) < length (price x)"
  shows "keptFor (xs @ [x]) (normalize_str (name x)) x"
proof -
  have "(xs @ [x]) ! length xs = x" by simp
  moreover have "\<forall>j<length xs. normalize_str (name ((xs @ [x]) ! j)) = normalize_str (name x) \<longrightarrow>
      length (price ((xs @ [x]) ! j)) < length (price x)"
    using assms by (simp add: nth_append)
  moreover have "length xs < length (xs @ [x])" by simp
  ultimately have "\<exists>i<length (xs @ [x]). (xs @ [x]) ! i = x \<and>
     (\<forall>j<i. normalize_str (name ((xs @ [x]) ! j)) = normalize_str (name x) \<longrightarrow>
        length (price ((xs @ [x]) ! j)) < length (price x))"
    by blast
  moreover have "\<forall>y\<in>set (xs @ [x]). normalize_str (name y) = normalize_str (name x) \<longrightarrow>
      length (price y) \<le> length (price x)"
    using assms by auto
  ultimately show ?thesis unfolding keptFor_def by blast
qed

lemma dedup_fold_inv:
  "map fst (fold dedupStep xs []) = firstSeen (map (\<lambda>it. normalize_str (name it)) xs) \<and>
   (\<forall>(k, v)\<in>set (fold dedupStep xs []). keptFor xs k v)"
proof (induction xs rule: rev_induct)
  case Nil
  show ?case by (simp add: firstSeen_def)
next
  case (snoc x xs)
  let ?K = "\<lambda>it. normalize_str (name it)"
  let ?m = "fold dedupStep xs []"
  from snoc have keys: "map fst ?m = firstSeen (map ?K xs)"
    and inv: "\<And>k v. (k, v) \<in> set ?m \<Longrightarrow> keptFor xs k v" by auto
  have dist: "distinct (map fst ?m)" using keys by (simp add: distinct_firstSeen)
  have keyset: "fst ` set ?m = ?K ` set xs"
    using keys set_firstSeen [of "map ?K xs"] by (metis set_map)
  have step: "fold dedupStep (xs @ [x]) [] = dedupStep x ?m" by simp
  show ?case
  proof (cases "map_of ?m (?K x)")
    case None
    then have new: "?K x \<notin> fst ` set ?m" by (simp add: map_of_eq_None_iff)
    then have r: "dedupStep x ?m = ?m @ [(?K x, x)]"
      using None by (simp add: dedupStep_def mapSet_new)
    from new keyset have nx: "\<forall>y\<in>set xs. ?K y \<noteq> ?K x" by (metis imageI)
    have k1: "map fst (dedupStep x ?m) = firstSeen (map ?K (xs @ [x]))"
      using r keys new keyset by (simp add: firstSeen_snoc)
    have k2: "keptFor (xs @ [x]) k v" if "(k, v) \<in> set (dedupStep x ?m)" for k v
    proof (cases "(k, v) \<in> set ?m")
      case True
      then have "keptFor xs k v" by (rule inv)
      moreover from True have "k \<in> fst ` set ?m" by force
      then have "?K x \<noteq> k" using new by auto
      ultimately show ?thesis by (intro keptFor_snoc_other) auto
    next
      case False
      with that r have "k = ?K x" "v = x" by auto
      then show ?thesis using keptFor_snoc_new [of xs x] nx by auto
    qed
    show ?thesis unfolding step using k1 k2 by auto
  next
    case (Some old)
    then have old: "(?K x, old) \<in> set ?m" by (rule map_of_SomeD)
    then have mem: "?K x \<in> fst ` set ?m" by force
    from inv [OF old] have ko: "keptFor xs (?K x) old" .
    have seen: "?K x \<in> set (map ?K xs)" using mem keyset by simp
    show ?thesis
    proof (cases "length (price old) < length (price x)")
      case True
      then have r: "dedupStep x ?m = mapSet ?m (?K x) x"
        using Some by (simp add: dedupStep_def)
      have k1: "map fst (dedupStep x ?m) = firstSeen (map ?K (xs @ [x]))"
        using r keys seen mem by (simp add: firstSeen_snoc mapSet_keys)
      have s: "(k = ?K x \<and> v = x) \<or> ((k, v) \<in> set ?m \<and> k \<noteq> ?K x)"
        if "(k, v) \<in> set (dedupStep x ?m)" for k v
        using that dist unfolding r by (intro mapSet_mem)
      have lt: "\<forall>y\<in>set xs. ?K y = ?K x \<longrightarrow> length (price y) < length (price x)"
        using ko True unfolding keptFor_def by (meson le_less_trans)
      have k2: "keptFor (xs @ [x]) k v" if "(k, v) \<in> set (dedupStep x ?m)" for k v
      proof (cases "k = ?K x")
        case True
        with s [OF that] have "v = x" by auto
        with True show ?thesis using keptFor_snoc_new [of xs x] lt by auto
      next
        case False
        with s [OF that] have "(k, v) \<in> set ?m" by auto
        then have "keptFor xs k v" by (rule inv)
        then show ?thesis using False by (intro keptFor_snoc_other) auto
      qed
      show ?thesis unfolding step using k1 k2 by auto
    next
      case False
      then have r: "dedupStep x ?m = ?m"
        using Some by (simp add: dedupStep_def)
      have k1: "map fst (dedupStep x ?m) = firstSeen (map ?K (xs @ [x]))"
        using r keys seen by (simp add: firstSeen_snoc)
      have k2: "keptFor (xs @ [x]) k v" if "(k, v) \<in> set (dedupStep x ?m)" for k v
      proof -
        from that r have in_m: "(k, v) \<in> set ?m" by simp
        then have kv: "keptFor xs k v" by (rule inv)
        show ?thesis
        proof (cases "k = ?K x")
          case True
          with in_m old dist have "v = old"
            by (metis eq_key_imp_eq_value)
          with False kv True show ?thesis by (intro keptFor_snoc_other) auto
        next
          case False
          with kv show ?thesis by (intro keptFor_snoc_other) auto
        qed
      qed
      show ?thesis unfolding step using k1 k2 by auto
    qed
  qed
qed


text \<open>
  C6. For every list of raw listings, deduplication by normalized name keeps, among the
  listings with the same key, one whose price text is the longest (the first of those in
  the scrape), and the keys of the catalog follow the order in which each key is seen
  first. Of two listings with the same key and price texts of lengths 6 and 10 the one of
  length 10 is kept, in either order.
\<close>

theorem dedupe_keeps_longest_price:
  "map (\<lambda>it. normalize_str (name it)) (dedupe items) =
     firstSeen (map (\<lambda>it. normalize_str (name it)) items) \<and>
   (\<forall>v\<in>set (dedupe items). keptFor items (normalize_str (name v)) v) \<and>
   (\<forall>a b. normalize_str (name a) = normalize_str (name b) \<and>
      length (price a) = 6 \<and> length (price b) = 10 \<longrightarrow>
      dedupe [a, b] = [b] \<and> dedupe [b, a] = [b])"
proof -
  let ?K = "\<lambda>it. normalize_str (name it)"
  let ?m = "fold dedupStep items []"
  from dedup_fold_inv [of items]
  have keys: "map fst ?m = firstSeen (map ?K items)"
    and inv: "\<And>k v. (k, v) \<in> set ?m \<Longrightarrow> keptFor items k v" by auto
  have kv: "?K (snd e) = fst e" if "e \<in> set ?m" for e
    using inv [of "fst e" "snd e"] that by (simp add: keptFor_def)
  have "map ?K (dedupe items) = map fst ?m"
    unfolding dedupe_def using kv by (simp add: comp_def)
  with keys have 1: "map ?K (dedupe items) = firstSeen (map ?K items)" by simp
  have 2: "keptFor items (?K v) v" if "v \<in> set (dedupe items)" for v
  proof -
    from that obtain e where e: "e \<in> set ?m" "v = snd e" by (auto simp: dedupe_def)
    then have "keptFor items (fst e) (snd e)" using inv [of "fst e" "snd e"] by simp
    with e kv [OF e(1)] show ?thesis by simp
  qed
  have 3: "dedupe [a, b] = [b] \<and> dedupe [b, a] = [b]"
    if "?K a = ?K b" "length (price a) = 6" "length (price b) = 10" for a b
    using that by (simp add: dedupe_def dedupStep_def)
  from 1 2 3 show ?thesis by blast
qed

theorem dedupe_keeps_longest_price_witness:
  "dedupe [usedAmped, usedAmpedSale] = [usedAmpedSale] \<and>
   dedupe [usedAmpedSale, usedAmped] = [usedAmpedSale] \<and>
   map (\<lambda>it. normalize_str (name it)) (dedupe [usedAmped, usedZ5, usedAmpedSale]) =
     [''selkirk amped'', ''onix z5'']"
proof -
  have na: "normalize_str (name usedAmped) = ''selkirk amped''"
    by code_simp
  have ns: "normalize_str (name usedAmpedSale) = ''selkirk amped''"
    by code_simp
  have nz: "normalize_str (name usedZ5) = ''onix z5''"
    by code_simp
  have h: "normalize_str (name usedAmped) = normalize_str (name usedAmpedSale) \<and>
      length (price usedAmped) = 6 \<and> length (price usedAmpedSale) = 10"
    by (simp add: na ns) (simp add: usedAmped_def usedAmpedSale_def)
  from dedupe_keeps_longest_price [of "[usedAmped, usedZ5, usedAmpedSale]"] h
  have "dedupe [usedAmped, usedAmpedSale] = [usedAmpedSale] \<and>
        dedupe [usedAmpedSale, usedAmped] = [usedAmpedSale]" by blast
  moreover from dedupe_keeps_longest_price [of "[usedAmped, usedZ5, usedAmpedSale]"]
  have "map (\<lambda>it. normalize_str (name it)) (dedupe [usedAmped, usedZ5, usedAmpedSale]) =
      firstSeen (map (\<lambda>it. normalize_str (name it)) [usedAmped, usedZ5, usedAmpedSale])"
    by blast
  ultimately show ?thesis by (simp add: na ns nz firstSeen_def)
qed


section \<open>Properties of the Matcher in \<open>server.js\<close>\<close>

lemma substringLoop_None:
  "(substringLoop q ds cand = None) = (cand = None \<and> (\<forall>x\<in>set ds. \<not> containment q x))"
proof (induction ds arbitrary: cand)
  case Nil
  show ?case by simp
next
  case (Cons x ds)
  let ?take = "containment q x \<and> (case cand of None \<Rightarrow> True | Some (c, cs) \<Rightarrow> cs < overlap q x)"
  have "substringLoop q (x # ds) cand =
      substringLoop q ds (if ?take then Some (x, overlap q x) else cand)"
    by (simp add: Let_def)
  then have "(substringLoop q (x # ds) cand = None) =
      ((if ?take then Some (x, overlap q x) else cand) = None \<and> (\<forall>y\<in>set ds. \<not> containment q y))"
    by (simp only: Cons.IH)
  also have "\<dots> = (cand = None \<and> (\<forall>y\<in>set (x # ds). \<not> containment q y))"
    by (cases cand) auto
  finally show ?case .
qed

lemma substringLoop_Some:
  assumes "substringLoop q ds cand = Some (it, s)"
  shows "(cand = Some (it, s) \<and> (\<forall>x\<in>set ds. containment q x \<longrightarrow> overlap q x \<le> s)) \<or>
         (s = overlap q it \<and> (\<forall>c cs. cand = Some (c, cs) \<longrightarrow> cs < s) \<and>
          (\<exists>pre post. ds = pre @ it # post \<and> containment q it \<and>
             (\<forall>x\<in>set pre. containment q x \<longrightarrow> overlap q x < s) \<and>
             (\<forall>x\<in>set post. containment q x \<longrightarrow> overlap q x \<le> s)))"
  using assms
proof (induction ds arbitrary: cand)
  case Nil
  then show ?case by simp
next
  case (Cons x ds)
  let ?take = "containment q x \<and> (case cand of None \<Rightarrow> True | Some (c, cs) \<Rightarrow> cs < overlap q x)"
  show ?case
  proof (cases ?take)
    case True
    then have cx: "containment q x" and lt: "\<forall>c cs. cand = Some (c, cs) \<longrightarrow> cs < overlap q x"
      by (auto split: option.splits)
    from True Cons.prems have "substringLoop q ds (Some (x, overlap q x)) = Some (it, s)"
      by (simp add: Let_def)
    from Cons.IH [OF this] show ?thesis
    proof
      assume a: "Some (x, overlap q x) = Some (it, s) \<and>
          (\<forall>y\<in>set ds. containment q y \<longrightarrow> overlap q y \<le> s)"
      then have e: "it = x" "s = overlap q x" by auto
      have "x # ds = [] @ it # ds" using e by simp
      moreover have "\<forall>y\<in>set []. containment q y \<longrightarrow> overlap q y < s" by simp
      ultimately have "\<exists>pre post. x # ds = pre @ it # post \<and> containment q it \<and>
             (\<forall>y\<in>set pre. containment q y \<longrightarrow> overlap q y < s) \<and>
             (\<forall>y\<in>set post. containment q y \<longrightarrow> overlap q y \<le> s)"
        using a cx e by blast
      with e lt show ?thesis by blast
    next
      assume "s = overlap q it \<and> (\<forall>c cs. Some (x, overlap q x) = Some (c, cs) \<longrightarrow> cs < s) \<and>
          (\<exists>pre post. ds = pre @ it # post \<and> containment q it \<and>
             (\<forall>y\<in>set pre. containment q y \<longrightarrow> overlap q y < s) \<and>
             (\<forall>y\<in>set post. containment q y \<longrightarrow> overlap q y \<le> s))"
      then obtain pre post where s: "s = overlap q it" and xs: "overlap q x < s"
        and d: "ds = pre @ it # post" "containment q it"
          "\<forall>y\<in>set pre. containment q y \<longrightarrow> overlap q y < s"
          "\<forall>y\<in>set post. containment q y \<longrightarrow> overlap q y \<le> s"
        by auto
      have "x # ds = (x # pre) @ it # post" using d(1) by simp
      moreover have "\<forall>y\<in>set (x # pre). containment q y \<longrightarrow> overlap q y < s"
        using d(3) xs by simp
      ultimately have "\<exists>pre post. x # ds = pre @ it # post \<and> containment q it \<and>
             (\<forall>y\<in>set pre. containment q y \<longrightarrow> overlap q y < s) \<and>
             (\<forall>y\<in>set post. containment q y \<longrightarrow> overlap q y \<le> s)"
        using d(2,4) by blast
      moreover have "\<forall>c cs. cand = Some (c, cs) \<longrightarrow> cs < s" using lt xs by auto
      ultimately show ?thesis using s by blast
    qed
  next
    case False
    then have le: "containment q x \<longrightarrow> (\<exists>c cs. cand = Some (c, cs) \<and> overlap q x \<le> cs)"
      by (auto split: option.splits)
    from False Cons.prems have "substringLoop q ds cand = Some (it, s)"
      by (auto simp: Let_def split: if_splits)
    from Cons.IH [OF this] show ?thesis
    proof
      assume a: "cand = Some (it, s) \<and> (\<forall>y\<in>set ds. containment q y \<longrightarrow> overlap q y \<le> s)"
      with le have "containment q x \<longrightarrow> overlap q x \<le> s" by auto
      with a show ?thesis by simp
    next
      assume "s = overlap q it \<and> (\<forall>c cs. cand = Some (c, cs) \<longrightarrow> cs < s) \<and>
          (\<exists>pre post. ds = pre @ it # post \<and> containment q it \<and>
             (\<forall>y\<in>set pre. containment q y \<longrightarrow> overlap q y < s) \<and>
             (\<forall>y\<in>set post. containment q y \<longrightarrow> overlap q y \<le> s))"
      then obtain pre post where s: "s = overlap q it"
        and c: "\<forall>c cs. cand = Some (c, cs) \<longrightarrow> cs < s"
        and d: "ds = pre @ it # post" "containment q it"
          "\<forall>y\<in>set pre. containment q y \<longrightarrow> overlap q y < s"
          "\<forall>y\<in>set post. containment q y \<longrightarrow> overlap q y \<le> s"
        by auto
      from le c have "containment q x \<longrightarrow> overlap q x < s" by fastforce
      then have "\<forall>y\<in>set (x # pre). containment q y \<longrightarrow> overlap q y < s"
        using d(3) by simp
      moreover have "x # ds = (x # pre) @ it # post" using d(1) by simp
      ultimately have "\<exists>pre post. x # ds = pre @ it # post \<and> containment q it \<and>
             (\<forall>y\<in>set pre. containment q y \<longrightarrow> overlap q y < s) \<and>
             (\<forall>y\<in>set post. containment q y \<longrightarrow> overlap q y \<le> s)"
        using d(2,4) by blast
      with s c show ?thesis by blast
    qed
  qed
qed

text \<open>
  C2. For every model whose normalized query \<open>q\<close> is non-empty and every catalog with at
  least one entry whose normalized name contains \<open>q\<close> or is contained in \<open>q\<close>,
  \<open>bestMatch\<close> of \<open>server.js\<close> returns from its substring phase, among all those entries,
  an entry with the greatest overlap length, the smaller of the two string lengths (the
  first such entry of the catalog), with that overlap as its score. It is not in general
  the first containment match of the catalog.
\<close>

theorem substring_phase_best_overlap:
  assumes "normalize_str m = q" "q \<noteq> []" "\<exists>x\<in>set dataset. containment q x"
  shows "\<exists>it. bestMatch m dataset = Some (Matched it (Some (overlap q it)) None) \<and>
           it \<in> set dataset \<and> containment q it \<and>
           (\<forall>x\<in>set dataset. containment q x \<longrightarrow> overlap q x \<le> overlap q it) \<and>
           firstLongest q dataset it"
proof -
  from assms(3) have "substringLoop q dataset None \<noteq> None"
    by (simp add: substringLoop_None)
  then obtain it s where r: "substringLoop q dataset None = Some (it, s)" by auto
  from substringLoop_Some [OF r] obtain pre post where s: "s = overlap q it"
    and d: "dataset = pre @ it # post" "containment q it"
      "\<forall>y\<in>set pre. containment q y \<longrightarrow> overlap q y < s"
      "\<forall>y\<in>set post. containment q y \<longrightarrow> overlap q y \<le> s"
    by auto
  have fl: "firstLongest q dataset it" unfolding firstLongest_def using d s by blast
  have mx: "\<forall>x\<in>set dataset. containment q x \<longrightarrow> overlap q x \<le> overlap q it"
    using d s by (auto simp: less_imp_le)
  have "bestMatch m dataset = Some (Matched it (Some (overlap q it)) None)"
    using assms(1,2) r s by (simp add: bestMatch_def)
  moreover have "it \<in> set dataset" using d(1) by simp
  ultimately show ?thesis using d(2) mx fl by blast
qed

theorem substring_phase_best_overlap_witness:
  "bestMatch ''Perseus  PRO iv'' [listingPerseus, listingPerseusProIV] =
     Some (Matched listingPerseusProIV (Some 14) None) \<and>
   containment ''perseus pro iv'' listingPerseus"
proof -
  have n: "normalize_str ''Perseus  PRO iv'' = ''perseus pro iv''" by code_simp
  have h2: "''perseus pro iv'' \<noteq> []" by simp
  have c1: "containment ''perseus pro iv'' listingPerseus" by code_simp
  have c2: "containment ''perseus pro iv'' listingPerseusProIV" by code_simp
  have o1: "overlap ''perseus pro iv'' listingPerseus = 7" by code_simp
  have o2: "overlap ''perseus pro iv'' listingPerseusProIV = 14" by code_simp
  have h3: "\<exists>x\<in>set [listingPerseus, listingPerseusProIV]. containment ''perseus pro iv'' x"
    using c1 by simp
  from substring_phase_best_overlap [OF n h2 h3] obtain it where
    b: "bestMatch ''Perseus  PRO iv'' [listingPerseus, listingPerseusProIV] =
          Some (Matched it (Some (overlap ''perseus pro iv'' it)) None)"
    and i: "it \<in> set [listingPerseus, listingPerseusProIV]"
    and mx: "\<forall>x\<in>set [listingPerseus, listingPerseusProIV]. containment ''perseus pro iv'' x \<longrightarrow>
          overlap ''perseus pro iv'' x \<le> overlap ''perseus pro iv'' it"
    by blast
  from mx c2 o2 have "14 \<le> overlap ''perseus pro iv'' it" by simp
  with i o1 have "it = listingPerseusProIV" by auto
  with b o2 c1 show ?thesis by simp
qed


text \<open>
  The substring phase of the variant with aliases, in contrast, returns the first
  containment match of the catalog.
\<close>

lemma substringFirst_first:
  assumes "substringFirst q ds = Some it"
  shows "\<exists>pre post. ds = pre @ it # post \<and> containment q it \<and>
           (\<forall>x\<in>set pre. \<not> containment q x)"
  using assms
proof (induction ds)
  case Nil
  then show ?case by simp
next
  case (Cons x ds)
  show ?case
  proof (cases "containment q x")
    case True
    with Cons.prems have "x # ds = [] @ it # ds" "containment q it" by auto
    then show ?thesis by fastforce
  next
    case False
    with Cons.prems have "substringFirst q ds = Some it" by simp
    from Cons.IH [OF this] obtain pre post where
      "ds = pre @ it # post" "containment q it" "\<forall>y\<in>set pre. \<not> containment q y" by blast
    with False have "x # ds = (x # pre) @ it # post \<and> containment q it \<and>
        (\<forall>y\<in>set (x # pre). \<not> containment q y)" by simp
    then show ?thesis by blast
  qed
qed

section \<open>Properties of the numbers\<close>

lemma ilog2_bounds:
  assumes "0 < x"
  shows "2 powi (ilog2 x) \<le> x \<and> x < 2 powi (ilog2 x + 1)"
proof (cases "1 \<le> x")
  case True
  let ?n = "\<lfloor>x\<rfloor>"
  from True have n: "0 < ?n" by simp
  let ?b = "bitlen ?n"
  from bitlen_bounds [OF n] have b: "2 ^ nat (?b - 1) \<le> ?n" "?n < 2 ^ nat ?b" by auto
  from n have b1: "1 \<le> ?b" by (auto simp: bitlen_alt_def)
  have "(2::rat) powi (?b - 1) = of_int (2 ^ nat (?b - 1))"
    using b1 by (simp add: power_int_def)
  also have "\<dots> \<le> of_int ?n" using b(1) by (simp only: of_int_le_iff)
  also have "\<dots> \<le> x" by simp
  finally have lo: "2 powi (?b - 1) \<le> x" .
  have "?n + 1 \<le> 2 ^ nat ?b" using b(2) by simp
  then have "(of_int (?n + 1) :: rat) \<le> of_int (2 ^ nat ?b)" by (simp only: of_int_le_iff)
  moreover have "x < of_int (?n + 1)" by linarith
  moreover have "(2::rat) powi ?b = of_int (2 ^ nat ?b)" using b1 by (simp add: power_int_def)
  ultimately have hi: "x < 2 powi ?b" by simp
  from lo hi True show ?thesis by (simp add: ilog2_def)
next
  case False
  let ?y = "1 / x"
  let ?n = "\<lceil>?y\<rceil>"
  from False assms have y1: "1 < ?y" by simp
  then have n2: "2 \<le> ?n" by linarith
  then have n: "0 < ?n - 1" by simp
  let ?b = "bitlen (?n - 1)"
  from bitlen_bounds [OF n] have b: "2 ^ nat (?b - 1) \<le> ?n - 1" "?n - 1 < 2 ^ nat ?b" by auto
  from n have b1: "1 \<le> ?b" by (auto simp: bitlen_alt_def)
  have p1: "(2::rat) powi ?b = of_int (2 ^ nat ?b)" using b1 by (simp add: power_int_def)
  have p2: "(2::rat) powi (?b - 1) = of_int (2 ^ nat (?b - 1))" using b1 by (simp add: power_int_def)
  have "?n \<le> 2 ^ nat ?b" using b(2) by simp
  then have "(of_int ?n :: rat) \<le> of_int (2 ^ nat ?b)" by (simp only: of_int_le_iff)
  then have "?y \<le> of_int (2 ^ nat ?b)" by (rule order_trans [OF le_of_int_ceiling])
  then have "?y \<le> 2 powi ?b" unfolding p1 .
  then have "1 \<le> x * 2 powi ?b" using assms by (simp add: field_simps)
  then have lo: "2 powi (- ?b) \<le> x"
    by (simp add: power_int_minus field_simps)
  have "(of_int (2 ^ nat (?b - 1)) :: rat) \<le> of_int (?n - 1)" using b(1) by (simp only: of_int_le_iff)
  moreover have "of_int (?n - 1) < ?y" by linarith
  ultimately have "2 powi (?b - 1) < ?y" using p2 by simp
  then have "x * 2 powi (?b - 1) < 1" using assms by (simp add: field_simps)
  then have hi: "x < 2 powi (- ?b + 1)"
    by (simp add: power_int_minus power_int_diff field_simps power_int_add)
  from lo hi False show ?thesis by (simp add: ilog2_def)
qed

lemma ilog2_eqI:
  assumes "2 powi e \<le> x" "x < 2 powi (e + 1)"
  shows "ilog2 x = e"
proof -
  have pos: "0 < x" using assms(1) by (rule less_le_trans [OF zero_less_power_int, rotated]) simp
  from ilog2_bounds [OF pos] have b: "2 powi (ilog2 x) \<le> x" "x < 2 powi (ilog2 x + 1)" by auto
  have "(2::rat) powi e < 2 powi (ilog2 x + 1)" using assms(1) b(2) by simp
  then have 1: "e < ilog2 x + 1"
    by (metis linorder_not_less one_le_numeral power_int_increasing)
  have "(2::rat) powi (ilog2 x) < 2 powi (e + 1)" using assms(2) b(1) by simp
  then have 2: "ilog2 x < e + 1"
    by (metis linorder_not_less one_le_numeral power_int_increasing)
  from 1 2 show ?thesis by simp
qed

lemma roundHalfEven_eqI:
  assumes "\<bar>y - of_int m\<bar> < 1 / 2"
  shows "roundHalfEven y = m"
proof -
  have "\<lfloor>y\<rfloor> = m \<or> \<lfloor>y\<rfloor> = m - 1" using assms by linarith
  then show ?thesis
  proof
    assume "\<lfloor>y\<rfloor> = m"
    moreover then have "y - of_int m < 1 / 2" using assms by linarith
    ultimately show ?thesis by (simp add: roundHalfEven_def Let_def)
  next
    assume f: "\<lfloor>y\<rfloor> = m - 1"
    from assms have "- (1 / 2) < y - of_int m" by (simp only: abs_less_iff) simp
    then have "1 / 2 < y - of_int (m - 1)" by simp
    with f show ?thesis by (simp add: roundHalfEven_def Let_def)
  qed
qed


lemma round64_at:
  assumes "2 powi e \<le> x" "x < 2 powi (e + 1)" "- 1022 \<le> e"
  shows "round64 x =
     (let r = of_int (roundHalfEven (x / 2 powi (e - 52))) * 2 powi (e - 52)
      in if 2 powi 1024 \<le> r then PosInf else Fin r)"
proof -
  have pos: "0 < x" using assms(1) by (rule less_le_trans [OF zero_less_power_int, rotated]) simp
  have e: "ilog2 x = e" using assms(1,2) by (rule ilog2_eqI)
  show ?thesis using pos assms(3) by (simp add: round64_def e max_def Let_def)
qed

lemma floor_numeral_quot: "\<lfloor>numeral a / numeral b :: rat\<rfloor> = numeral a div numeral b"
  using floor_divide_of_int_eq [of "numeral a" "numeral b", where ?'a = rat] by simp


lemma roundHalfEven_of_int: "roundHalfEven (of_int n) = n"
  by (simp add: roundHalfEven_def)

lemma roundHalfEven_ge:
  assumes "of_int a \<le> y"
  shows "a \<le> roundHalfEven y"
proof -
  from assms have "a \<le> \<lfloor>y\<rfloor>" by (simp add: le_floor_iff)
  then show ?thesis by (simp add: roundHalfEven_def Let_def)
qed

lemma roundHalfEven_le:
  assumes "y \<le> of_int b"
  shows "roundHalfEven y \<le> b"
proof (cases "y = of_int \<lfloor>y\<rfloor>")
  case True
  then have "roundHalfEven y = \<lfloor>y\<rfloor>" by (metis roundHalfEven_of_int)
  moreover have "\<lfloor>y\<rfloor> \<le> b" using floor_mono [OF assms] by simp
  ultimately show ?thesis by simp
next
  case False
  then have "of_int \<lfloor>y\<rfloor> < y" by (metis of_int_floor_le order_less_le)
  with assms have "of_int \<lfloor>y\<rfloor> < (of_int b :: rat)" by simp
  then have "\<lfloor>y\<rfloor> < b" by (simp only: of_int_less_iff)
  then show ?thesis by (simp add: roundHalfEven_def Let_def)
qed

lemma round64_exact:
  assumes "0 \<le> m" "m \<le> 2 ^ 53" "- 1074 \<le> e"
    and "of_int m * 2 powi e < (2::rat) powi 1024"
  shows "round64 (of_int m * 2 powi e) = Fin (of_int m * 2 powi e)"
proof (cases "m = 0")
  case True
  then show ?thesis by (simp add: round64_def)
next
  case False
  let ?x = "of_int m * 2 powi e :: rat"
  from False assms(1) have mpos: "0 < m" by simp
  then have pos: "0 < ?x" by simp
  let ?k = "max (ilog2 ?x) (- 1022)"
  let ?ulp = "2 powi (?k - 52) :: rat"
  from ilog2_bounds [OF pos] have lb: "2 powi (ilog2 ?x) \<le> ?x" and ub: "?x < 2 powi (ilog2 ?x + 1)"
    by auto
  have "\<exists>n::int. ?x / ?ulp = of_int n"
  proof (cases "m = 2 ^ 53")
    case True
    then have x: "?x = 2 powi (e + 53)" by (simp add: power_int_add)
    then have "ilog2 ?x = e + 53" by (intro ilog2_eqI) (simp_all add: power_int_add)
    with assms(3) have u: "?ulp = 2 powi (e + 1)" by (simp add: ac_simps)
    have "?x / ?ulp = ?x / 2 powi (e + 1)" by (simp only: u)
    also have "\<dots> = 2 powi (e + 53) / 2 powi (e + 1)" by (simp only: x)
    also have "\<dots> = 2 powi (e + 53 - (e + 1))" by (subst power_int_diff) simp_all
    also have "\<dots> = of_int (2 ^ 52)" by simp
    finally show ?thesis by blast
  next
    case False
    with assms(2) have "m < 2 ^ 53" by simp
    then have "(of_int m :: rat) < of_int (2 ^ 53)" by (simp only: of_int_less_iff)
    then have "?x < 2 ^ 53 * 2 powi e" by simp
    also have "\<dots> = 2 powi (e + 53)" by (simp add: power_int_add)
    finally have "(2::rat) powi (ilog2 ?x) < 2 powi (e + 53)" using lb by simp
    then have "ilog2 ?x < e + 53"
      by (metis linorder_not_less one_le_numeral power_int_increasing)
    with assms(3) have d: "0 \<le> e + 52 - ?k" by simp
    have "?x / ?ulp = of_int m * (2 powi e / 2 powi (?k - 52))" by simp
    also have "2 powi e / 2 powi (?k - 52) = (2::rat) powi (e - (?k - 52))"
      by (subst power_int_diff) simp_all
    also have "e - (?k - 52) = int (nat (e + 52 - ?k))" using d by simp
    also have "(2::rat) powi int (nat (e + 52 - ?k)) = of_int (2 ^ nat (e + 52 - ?k))"
      by (simp only: power_int_of_nat) simp
    finally have "?x / ?ulp = of_int (m * 2 ^ nat (e + 52 - ?k))" by simp
    then show ?thesis by blast
  qed
  then obtain n :: int where n: "?x / ?ulp = of_int n" ..
  then have nx: "of_int n * ?ulp = ?x" by (simp add: field_simps)
  have "round64 ?x = (if 2 powi 1024 \<le> of_int (roundHalfEven (?x / ?ulp)) * ?ulp then PosInf
      else Fin (of_int (roundHalfEven (?x / ?ulp)) * ?ulp))"
    using pos by (simp add: round64_def Let_def)
  also have "\<dots> = Fin ?x"
    unfolding n roundHalfEven_of_int nx using assms(4) by simp
  finally show ?thesis .
qed

lemma round64_range:
  assumes "round64 x = Fin v"
  shows "\<exists>m e. v = of_int m * 2 powi e \<and> 0 \<le> m \<and> m \<le> 2 ^ 53 \<and> - 1074 \<le> e \<and> v < 2 powi 1024"
proof (cases "x \<le> 0")
  case True
  with assms have "v = of_int 0 * 2 powi 0" by (simp add: round64_def)
  then show ?thesis by (intro exI [of _ 0]) simp
next
  case False
  then have pos: "0 < x" by simp
  let ?k = "max (ilog2 x) (- 1022)"
  let ?ulp = "2 powi (?k - 52) :: rat"
  let ?m = "roundHalfEven (x / ?ulp)"
  from pos assms have v: "v = of_int ?m * ?ulp" and fin: "v < 2 powi 1024"
    by (auto simp: round64_def Let_def split: if_splits)
  have "(of_int 0 :: rat) \<le> x / ?ulp" using pos by simp
  then have m0: "0 \<le> ?m" by (rule roundHalfEven_ge)
  from ilog2_bounds [OF pos] have "x < 2 powi (ilog2 x + 1)" by simp
  also have "\<dots> \<le> 2 powi (?k + 1)" by (intro power_int_increasing) simp_all
  also have "\<dots> = 2 powi 53 * ?ulp" by (simp add: power_int_add power_int_diff)
  finally have "x / ?ulp < 2 powi 53" by (simp add: field_simps)
  then have "x / ?ulp \<le> of_int (2 ^ 53)" by simp
  then have m1: "?m \<le> 2 ^ 53" by (rule roundHalfEven_le)
  have "- 1074 \<le> ?k - 52" by simp
  with v m0 m1 fin show ?thesis by blast
qed

lemma round64_overflow:
  assumes "2 powi 1024 \<le> x"
  shows "round64 x = PosInf"
proof -
  have pos: "0 < x" using assms by (rule less_le_trans [OF zero_less_power_int, rotated]) simp
  let ?k = "ilog2 x"
  from ilog2_bounds [OF pos] have lb: "2 powi ?k \<le> x" and ub: "x < 2 powi (?k + 1)" by auto
  from assms ub have "(2::rat) powi 1024 < 2 powi (?k + 1)" by simp
  then have "1024 < ?k + 1"
    by (metis linorder_not_less one_le_numeral power_int_increasing)
  then have k: "1024 \<le> ?k" by simp
  then have mx: "max ?k (- 1022) = ?k" by simp
  let ?ulp = "2 powi (?k - 52) :: rat"
  have "2 powi 52 * ?ulp = 2 powi ?k" by (simp add: power_int_diff)
  with lb have "2 powi 52 \<le> x / ?ulp" by (simp add: field_simps)
  then have "of_int (2 ^ 52) \<le> x / ?ulp" by simp
  then have "2 ^ 52 \<le> roundHalfEven (x / ?ulp)" by (rule roundHalfEven_ge)
  then have "(of_int (2 ^ 52) :: rat) \<le> of_int (roundHalfEven (x / ?ulp))"
    by (simp only: of_int_le_iff)
  then have c: "of_int (2 ^ 52) * ?ulp \<le> of_int (roundHalfEven (x / ?ulp)) * ?ulp"
    by (intro mult_right_mono) simp_all
  have "(2::rat) powi 1024 \<le> 2 powi ?k" using k by (intro power_int_increasing) simp_all
  also have "2 powi ?k = of_int (2 ^ 52) * ?ulp" by (simp add: power_int_diff)
  also note c
  finally have "2 powi 1024 \<le> of_int (roundHalfEven (x / ?ulp)) * ?ulp" .
  then show ?thesis using pos by (simp add: round64_def Let_def mx)
qed

lemmas r64_eval = roundHalfEven_def Let_def floor_numeral_quot

section \<open>Properties of the PriceParser\<close>

lemma not_isDigit_point: "\<not> isDigit CHR ''.''"
  by (simp add: isDigit_def)

lemma priceShaped_run:
  assumes "ds \<noteq> []" "\<forall>d\<in>set ds. isDigit d" "isDigit a" "isDigit b"
  shows "priceShaped (ds @ [CHR ''.'', a, b])"
proof -
  have "takeWhile isDigit (ds @ [CHR ''.'', a, b]) = ds"
    using assms(2) by (simp add: takeWhile_append2 not_isDigit_point)
  moreover have "dropWhile isDigit (ds @ [CHR ''.'', a, b]) = [CHR ''.'', a, b]"
    using assms(2) by (simp add: dropWhile_append2 not_isDigit_point)
  ultimately show ?thesis using assms by (simp add: priceShaped_def)
qed

lemma priceShaped_decomp:
  assumes "priceShaped s"
  shows "\<exists>ds a b. s = ds @ [CHR ''.'', a, b] \<and> ds \<noteq> [] \<and> (\<forall>d\<in>set ds. isDigit d) \<and>
           isDigit a \<and> isDigit b"
proof -
  from assms obtain a b where d: "dropWhile isDigit s = [CHR ''.'', a, b]" "isDigit a" "isDigit b"
    and t: "takeWhile isDigit s \<noteq> []"
    by (auto simp: priceShaped_def split: list.splits)
  have "s = takeWhile isDigit s @ dropWhile isDigit s" by simp
  then have "s = takeWhile isDigit s @ [CHR ''.'', a, b]" using d(1) by simp
  moreover have "\<forall>x\<in>set (takeWhile isDigit s). isDigit x" by (auto dest: set_takeWhileD)
  ultimately show ?thesis using t d(2,3) by blast
qed

lemma matchPrices_Cons:
  "matchPrices (c # cs) = matchPrices cs \<or>
   (isDigit c \<and> (\<exists>a b rest. dropWhile isDigit (c # cs) = CHR ''.'' # a # b # rest \<and>
      isDigit a \<and> isDigit b \<and>
      matchPrices (c # cs) = (takeWhile isDigit (c # cs) @ [CHR ''.'', a, b]) # matchPrices rest))"
  by (auto simp: matchPrices.simps split: list.splits)

lemma matchPrices_sound: "s \<in> set (matchPrices t) \<Longrightarrow> sublist s t \<and> priceShaped s"
proof (induction t arbitrary: s rule: length_induct)
  case (1 t)
  show ?case
  proof (cases t)
    case Nil
    with 1 show ?thesis by (simp add: matchPrices.simps)
  next
    case (Cons c cs)
    from matchPrices_Cons [of c cs] show ?thesis
    proof
      assume "matchPrices (c # cs) = matchPrices cs"
      with 1(2) Cons have "s \<in> set (matchPrices cs)" by simp
      moreover have "length cs < length t" using Cons by simp
      ultimately have "sublist s cs \<and> priceShaped s" using 1(1) by blast
      then show ?thesis using Cons by (simp add: sublist_Cons_right)
    next
      assume "isDigit c \<and> (\<exists>a b rest. dropWhile isDigit (c # cs) = CHR ''.'' # a # b # rest \<and>
        isDigit a \<and> isDigit b \<and>
        matchPrices (c # cs) = (takeWhile isDigit (c # cs) @ [CHR ''.'', a, b]) # matchPrices rest)"
      then obtain a b rest where c: "isDigit c"
        and d: "dropWhile isDigit (c # cs) = CHR ''.'' # a # b # rest" "isDigit a" "isDigit b"
        and m: "matchPrices (c # cs) = (takeWhile isDigit (c # cs) @ [CHR ''.'', a, b]) # matchPrices rest"
        by blast
      let ?run = "takeWhile isDigit (c # cs)"
      have t: "t = (?run @ [CHR ''.'', a, b]) @ rest"
        using takeWhile_dropWhile_id [of isDigit "c # cs"] d(1) Cons by simp
      from 1(2) Cons m have "s = ?run @ [CHR ''.'', a, b] \<or> s \<in> set (matchPrices rest)" by simp
      then show ?thesis
      proof
        assume s: "s = ?run @ [CHR ''.'', a, b]"
        have "?run \<noteq> []" using c by simp
        moreover have "\<forall>x\<in>set ?run. isDigit x" by (auto dest: set_takeWhileD)
        ultimately have "priceShaped s" unfolding s using d(2,3) by (rule priceShaped_run)
        moreover have "sublist s t" unfolding s using t by (metis prefix_imp_sublist prefixI)
        ultimately show ?thesis by simp
      next
        assume s: "s \<in> set (matchPrices rest)"
        have "length rest < length t" using t by simp
        with 1(1) s have "sublist s rest \<and> priceShaped s" by blast
        moreover have "suffix rest t" using t by (metis suffixI)
        ultimately show ?thesis
          by (meson sublist_order.order_trans suffix_imp_sublist)
      qed
    qed
  qed
qed

lemma matchPrices_Cons_nonempty: "matchPrices cs \<noteq> [] \<Longrightarrow> matchPrices (c # cs) \<noteq> []"
  using matchPrices_Cons [of c cs] by auto

lemma matchPrices_complete:
  assumes "priceShaped s"
  shows "matchPrices (pre @ s @ post) \<noteq> []"
proof (induction pre)
  case Nil
  from priceShaped_decomp [OF assms] obtain ds a b where
    s: "s = ds @ [CHR ''.'', a, b]" "ds \<noteq> []" "\<forall>d\<in>set ds. isDigit d" "isDigit a" "isDigit b"
    by blast
  from s(2) obtain c cs where ds: "ds = c # cs" by (cases ds) auto
  have d: "dropWhile isDigit ((c # cs) @ CHR ''.'' # a # b # post) = CHR ''.'' # a # b # post"
    using s(3) ds by (simp add: not_isDigit_point)
  have "isDigit c" using s(3) ds by simp
  then have "matchPrices ((c # cs) @ CHR ''.'' # a # b # post) \<noteq> []"
    using d s(4,5) by (simp add: matchPrices.simps)
  then show ?case using s(1) ds by simp
next
  case (Cons p pre)
  then show ?case using matchPrices_Cons_nonempty by simp
qed

lemma matchPrices_empty_iff:
  "(matchPrices t = []) = (\<nexists>s. sublist s t \<and> priceShaped s)"
proof
  assume e: "matchPrices t = []"
  show "\<nexists>s. sublist s t \<and> priceShaped s"
  proof
    assume "\<exists>s. sublist s t \<and> priceShaped s"
    then obtain s pre post where "t = pre @ s @ post" "priceShaped s"
      by (auto simp: sublist_def)
    with matchPrices_complete [of s pre post] e show False by simp
  qed
next
  assume n: "\<nexists>s. sublist s t \<and> priceShaped s"
  show "matchPrices t = []"
  proof (rule ccontr)
    assume "matchPrices t \<noteq> []"
    then obtain s where "s \<in> set (matchPrices t)" by (cases "matchPrices t") auto
    from matchPrices_sound [OF this] n show False by blast
  qed
qed

lemma jle_refl: "jle x x"
  by (cases x) simp_all

lemma jle_trans: "jle x y \<Longrightarrow> jle y z \<Longrightarrow> jle x z"
  by (cases x; cases y; cases z) simp_all

lemma jle_total: "jle x y \<or> jle y x"
  by (cases x; cases y) auto

lemma fold_jmin:
  "fold (\<lambda>y acc. jmin acc y) xs x \<in> set (x # xs) \<and>
   (\<forall>y\<in>set (x # xs). jle (fold (\<lambda>y acc. jmin acc y) xs x) y)"
proof (induction xs arbitrary: x)
  case Nil
  show ?case by (simp add: jle_refl)
next
  case (Cons a xs)
  let ?r = "fold (\<lambda>y acc. jmin acc y) xs (jmin x a)"
  from Cons [of "jmin x a"] have m: "?r \<in> set (jmin x a # xs)"
    and l: "\<forall>y\<in>set (jmin x a # xs). jle ?r y" by auto
  have "jmin x a = x \<or> jmin x a = a" by (simp add: jmin_def)
  with m have 1: "?r \<in> set (x # a # xs)" by auto
  from l have "jle ?r (jmin x a)" by simp
  moreover have "jle (jmin x a) x" "jle (jmin x a) a"
    using jle_total [of x a] by (auto simp: jmin_def jle_refl)
  ultimately have "jle ?r x" "jle ?r a" by (blast intro: jle_trans)+
  with l have 2: "\<forall>y\<in>set (x # a # xs). jle ?r y" by simp
  from 1 2 show ?case by simp
qed

lemma fold_jmax:
  "fold (\<lambda>y acc. jmax acc y) xs x \<in> set (x # xs) \<and>
   (\<forall>y\<in>set (x # xs). jle y (fold (\<lambda>y acc. jmax acc y) xs x))"
proof (induction xs arbitrary: x)
  case Nil
  show ?case by (simp add: jle_refl)
next
  case (Cons a xs)
  let ?r = "fold (\<lambda>y acc. jmax acc y) xs (jmax x a)"
  from Cons [of "jmax x a"] have m: "?r \<in> set (jmax x a # xs)"
    and l: "\<forall>y\<in>set (jmax x a # xs). jle y ?r" by auto
  have "jmax x a = x \<or> jmax x a = a" by (simp add: jmax_def)
  with m have 1: "?r \<in> set (x # a # xs)" by auto
  from l have "jle (jmax x a) ?r" by simp
  moreover have "jle x (jmax x a)" "jle a (jmax x a)"
    using jle_total [of x a] by (auto simp: jmax_def jle_refl)
  ultimately have "jle x ?r" "jle a ?r" by (blast intro: jle_trans)+
  with l have 2: "\<forall>y\<in>set (x # a # xs). jle y ?r" by simp
  from 1 2 show ?case by simp
qed

lemma mathMin_least: "nums \<noteq> [] \<Longrightarrow> mathMin nums \<in> set nums \<and> (\<forall>y\<in>set nums. jle (mathMin nums) y)"
  using fold_jmin by (cases nums) simp_all

lemma mathMax_greatest: "nums \<noteq> [] \<Longrightarrow> mathMax nums \<in> set nums \<and> (\<forall>y\<in>set nums. jle y (mathMax nums))"
  using fold_jmax by (cases nums) simp_all

lemma midpoint_same:
  assumes "round64 x = Fin v" "v < 2 powi 1023"
  shows "jover (jadd (Fin v) (Fin v)) 2 = Fin v"
proof -
  from round64_range [OF assms(1)] obtain m e where
    v: "v = of_int m * 2 powi e" and m: "0 \<le> m" "m \<le> 2 ^ 53" and e: "- 1074 \<le> e"
    and f: "v < 2 powi 1024" by blast
  have d: "v + v = of_int m * 2 powi (e + 1)" unfolding v by (simp add: power_int_add)
  have "v + v < 2 powi 1023 * 2" using assms(2) by simp
  also have "\<dots> = (2::rat) powi 1024" by simp
  finally have "of_int m * 2 powi (e + 1) < (2::rat) powi 1024" unfolding d .
  with m e have "round64 (of_int m * 2 powi (e + 1)) = Fin (of_int m * 2 powi (e + 1))"
    by (intro round64_exact) simp_all
  then have 1: "jadd (Fin v) (Fin v) = Fin (v + v)" unfolding d [symmetric] by simp
  have "round64 (of_int m * 2 powi e) = Fin (of_int m * 2 powi e)"
    using m e f unfolding v by (intro round64_exact)
  then have "round64 ((v + v) / 2) = Fin v" unfolding v by simp
  then have 2: "jover (Fin (v + v)) 2 = Fin v" by simp
  show ?thesis by (simp only: 1 2)
qed


lemma parseFloat_7999: "parseFloat ''79.99'' = Fin (5628795846771343 / 70368744177664)"
proof -
  have "parseFloat ''79.99'' = round64 (7999 / 100)"
    by (simp add: parseFloat_def isDigit_def digitsValue_def)
  also have "\<dots> = Fin (5628795846771343 / 70368744177664)"
    by (subst round64_at [where e = 6]) (simp_all add: r64_eval)
  finally show ?thesis .
qed

lemma parseFloat_3999: "parseFloat ''39.99'' = Fin (5628092159329567 / 140737488355328)"
proof -
  have "parseFloat ''39.99'' = round64 (3999 / 100)"
    by (simp add: parseFloat_def isDigit_def digitsValue_def)
  also have "\<dots> = Fin (5628092159329567 / 140737488355328)"
    by (subst round64_at [where e = 5]) (simp_all add: r64_eval)
  finally show ?thesis .
qed

lemma parseFloat_4000: "parseFloat ''40.00'' = Fin 40"
proof -
  have "parseFloat ''40.00'' = round64 (4000 / 100)"
    by (simp add: parseFloat_def isDigit_def digitsValue_def)
  also have "\<dots> = Fin 40"
    by (subst round64_at [where e = 5]) (simp_all add: r64_eval)
  finally show ?thesis .
qed

lemma mid_7999:
  "jover (jadd (Fin (5628795846771343 / 70368744177664)) (Fin (5628795846771343 / 70368744177664))) 2 =
     Fin (5628795846771343 / 70368744177664)"
proof -
  have 1: "round64 (5628795846771343 / 70368744177664 + 5628795846771343 / 70368744177664) =
      Fin (5628795846771343 / 35184372088832)"
    by (subst round64_at [where e = 7]) (simp_all add: r64_eval)
  have 2: "round64 (5628795846771343 / 35184372088832 / 2) = Fin (5628795846771343 / 70368744177664)"
    by (subst round64_at [where e = 6]) (simp_all add: r64_eval)
  have "jadd (Fin (5628795846771343 / 70368744177664)) (Fin (5628795846771343 / 70368744177664)) =
      Fin (5628795846771343 / 35184372088832)" using 1 by simp
  moreover have "jover (Fin (5628795846771343 / 35184372088832)) 2 =
      Fin (5628795846771343 / 70368744177664)" using 2 by simp
  ultimately show ?thesis by (simp only:)
qed

lemma priceParse_7999:
  "priceParse ''$79.99'' =
     Some \<lparr>lo = Fin (5628795846771343 / 70368744177664),
           hi = Fin (5628795846771343 / 70368744177664),
           mid = Fin (5628795846771343 / 70368744177664)\<rparr>"
proof -
  have "matchPrices ''$79.99'' = [''79.99'']" by (simp add: matchPrices.simps isDigit_def)
  then show ?thesis
    unfolding priceParse_def by (simp add: parseFloat_7999 mid_7999 Let_def del: jadd.simps jover.simps)
qed

lemma round64_1e308: "round64 (10 ^ 308) = Fin (5010420900022432 * 2 ^ 971)"
  by (subst round64_at [where e = 1023]) (simp_all add: r64_eval)

lemma fold_digits_zeros: "((*) (10::nat) ^^ k) a = a * 10 ^ k"
  by (induction k arbitrary: a) simp_all

lemma isDigit_zeros: "\<forall>c\<in>set (CHR ''1'' # replicate k CHR ''0''). isDigit c"
  by (auto simp: isDigit_def)

lemma takeWhile_huge:
  "takeWhile isDigit ((CHR ''1'' # replicate k CHR ''0'') @ ''.00'') = CHR ''1'' # replicate k CHR ''0''"
  using isDigit_zeros [of k] by (subst takeWhile_append2) (auto simp: isDigit_def)

lemma dropWhile_huge:
  "dropWhile isDigit ((CHR ''1'' # replicate k CHR ''0'') @ ''.00'') = ''.00''"
  using isDigit_zeros [of k] by (subst dropWhile_append2) (auto simp: isDigit_def)

lemma matchPrices_huge: "matchPrices hugePrice = [hugePrice]"
proof -
  have h: "hugePrice = (CHR ''1'' # replicate 308 CHR ''0'') @ ''.00''" by (simp add: hugePrice_def)
  have "matchPrices (CHR ''1'' # (replicate 308 CHR ''0'' @ ''.00'')) =
      ((CHR ''1'' # replicate 308 CHR ''0'') @ ''.00'') # matchPrices []"
    using takeWhile_huge [of 308] dropWhile_huge [of 308]
    by (subst matchPrices.simps) (simp add: isDigit_def)
  then show ?thesis by (simp add: h matchPrices.simps)
qed

lemma parseFloat_huge: "parseFloat hugePrice = Fin (5010420900022432 * 2 ^ 971)"
proof -
  have h: "hugePrice = (CHR ''1'' # replicate 308 CHR ''0'') @ ''.00''" by (simp add: hugePrice_def)
  have ip: "digitsValue (CHR ''1'' # replicate 308 CHR ''0'') = 10 ^ 308"
    by (simp add: digitsValue_def fold_digits_zeros)
  have fp: "takeWhile isDigit (drop 1 ''.00'') = ''00''" by (simp add: isDigit_def)
  have "parseFloat hugePrice = round64 (of_nat (10 ^ 308 * 10 ^ 2 + 0) / of_nat (10 ^ 2))"
    unfolding parseFloat_def h takeWhile_huge dropWhile_huge fp Let_def ip
    by (simp add: digitsValue_def)
  also have "\<dots> = round64 (10 ^ 308)" by simp
  finally show ?thesis by (simp only: round64_1e308)
qed

lemma priceParse_huge:
  "priceParse hugePrice =
     Some \<lparr>lo = Fin (5010420900022432 * 2 ^ 971), hi = Fin (5010420900022432 * 2 ^ 971), mid = PosInf\<rparr>"
proof -
  have "(2::rat) powi 1024 \<le> 5010420900022432 * 2 ^ 971 + 5010420900022432 * 2 ^ 971" by simp
  then have "round64 (5010420900022432 * 2 ^ 971 + 5010420900022432 * 2 ^ 971) = PosInf"
    by (rule round64_overflow)
  then have "jover (jadd (Fin (5010420900022432 * 2 ^ 971)) (Fin (5010420900022432 * 2 ^ 971))) 2 = PosInf"
    by simp
  then show ?thesis
    unfolding priceParse_def
    by (simp add: matchPrices_huge parseFloat_huge Let_def del: jadd.simps jover.simps)
qed


text \<open>
  C3, as amended. \<open>priceParse\<close> returns none exactly when the text contains no substring
  of the form one or more digits, a point, two digits; the matches it extracts are such
  substrings. Otherwise \<open>lo\<close> is the least and \<open>hi\<close> the greatest of the extracted
  values and \<open>mid\<close> is \<open>(lo + hi) / 2\<close> in binary64 arithmetic. When exactly one
  value \<open>v\<close> is extracted and \<open>v\<close> is below \<open>2^1023\<close> or is \<open>Infinity\<close>, then
  \<open>lo\<close>, \<open>hi\<close> and \<open>mid\<close> all equal \<open>v\<close>.
\<close>

theorem priceParse_spec:
  "(priceParse t = None) = (\<nexists>s. sublist s t \<and> priceShaped s) \<and>
   (\<forall>s\<in>set (matchPrices t). sublist s t \<and> priceShaped s) \<and>
   (\<forall>p. priceParse t = Some p \<longrightarrow>
      lo p \<in> parseFloat ` set (matchPrices t) \<and>
      (\<forall>s\<in>set (matchPrices t). jle (lo p) (parseFloat s)) \<and>
      hi p \<in> parseFloat ` set (matchPrices t) \<and>
      (\<forall>s\<in>set (matchPrices t). jle (parseFloat s) (hi p)) \<and>
      mid p = jover (jadd (lo p) (hi p)) 2) \<and>
   (\<forall>s v. matchPrices t = [s] \<and> parseFloat s = Fin v \<and> v < 2 powi 1023 \<longrightarrow>
      priceParse t = Some \<lparr>lo = Fin v, hi = Fin v, mid = Fin v\<rparr>) \<and>
   (\<forall>s. matchPrices t = [s] \<and> parseFloat s = PosInf \<longrightarrow>
      priceParse t = Some \<lparr>lo = PosInf, hi = PosInf, mid = PosInf\<rparr>)"
proof -
  let ?nums = "map parseFloat (matchPrices t)"
  have 1: "(priceParse t = None) = (\<nexists>s. sublist s t \<and> priceShaped s)"
    using matchPrices_empty_iff [of t] by (simp add: priceParse_def Let_def)
  have 2: "\<forall>s\<in>set (matchPrices t). sublist s t \<and> priceShaped s"
    using matchPrices_sound by blast
  have 3: "lo p \<in> parseFloat ` set (matchPrices t) \<and>
      (\<forall>s\<in>set (matchPrices t). jle (lo p) (parseFloat s)) \<and>
      hi p \<in> parseFloat ` set (matchPrices t) \<and>
      (\<forall>s\<in>set (matchPrices t). jle (parseFloat s) (hi p)) \<and>
      mid p = jover (jadd (lo p) (hi p)) 2" if "priceParse t = Some p" for p
  proof -
    from that have ne: "?nums \<noteq> []"
      and p: "p = \<lparr>lo = mathMin ?nums, hi = mathMax ?nums,
             mid = jover (jadd (mathMin ?nums) (mathMax ?nums)) 2\<rparr>"
      by (auto simp: priceParse_def Let_def split: if_splits)
    from mathMin_least [OF ne] mathMax_greatest [OF ne] show ?thesis
      unfolding p by simp
  qed
  have 4: "priceParse t = Some \<lparr>lo = Fin v, hi = Fin v, mid = Fin v\<rparr>"
    if "matchPrices t = [s]" "parseFloat s = Fin v" "v < 2 powi 1023" for s v
  proof -
    from that(2) obtain x where "round64 x = Fin v"
      by (auto simp: parseFloat_def Let_def)
    from midpoint_same [OF this that(3)] that(1,2) show ?thesis
      unfolding priceParse_def by (simp add: Let_def del: jadd.simps jover.simps)
  qed
  have 5: "priceParse t = Some \<lparr>lo = PosInf, hi = PosInf, mid = PosInf\<rparr>"
    if "matchPrices t = [s]" "parseFloat s = PosInf" for s
    using that by (simp add: priceParse_def Let_def)
  from 1 2 3 4 5 show ?thesis by blast
qed

theorem priceParse_spec_witness:
  "priceParse ''$79.99'' =
     Some \<lparr>lo = parseFloat ''79.99'', hi = parseFloat ''79.99'', mid = parseFloat ''79.99''\<rparr> \<and>
   (\<nexists>s. sublist s ''from $80'' \<and> priceShaped s)"
proof -
  have m: "matchPrices ''$79.99'' = [''79.99'']" by (simp add: matchPrices.simps isDigit_def)
  have b: "(5628795846771343 / 70368744177664 :: rat) < 2 powi 1023" by simp
  from priceParse_spec [of "''$79.99''"] m parseFloat_7999 b
  have 1: "priceParse ''$79.99'' =
     Some \<lparr>lo = Fin (5628795846771343 / 70368744177664),
           hi = Fin (5628795846771343 / 70368744177664),
           mid = Fin (5628795846771343 / 70368744177664)\<rparr>"
    by blast
  have "priceParse ''from $80'' = None"
    by (simp add: priceParse_def matchPrices.simps isDigit_def)
  with priceParse_spec [of "''from $80''"]
  have 2: "\<nexists>s. sublist s ''from $80'' \<and> priceShaped s" by blast
  from 1 2 show ?thesis by (simp only: parseFloat_7999) simp
qed

text \<open>
  C3 as stated fails for a single value of \<open>2^1023\<close> or more that is still finite: for
  the price \<open>10^308\<close> the sum \<open>lo + hi\<close> overflows and \<open>mid\<close> is \<open>Infinity\<close>.
\<close>

theorem priceParse_huge_counterexample:
  "matchPrices hugePrice = [hugePrice] \<and>
   map_option lo (priceParse hugePrice) = Some (parseFloat hugePrice) \<and>
   map_option hi (priceParse hugePrice) = Some (parseFloat hugePrice) \<and>
   map_option mid (priceParse hugePrice) = Some PosInf \<and>
   parseFloat hugePrice \<noteq> PosInf"
  by (simp add: matchPrices_huge priceParse_huge parseFloat_huge)

section \<open>Properties of the offer\<close>

lemma fixedOffer_7999:
  "fixedOffer (Fin (5628795846771343 / 70368744177664)) = Fin (5628092159329567 / 140737488355328)"
proof -
  have 1: "round64 (5628795846771343 / 70368744177664 * (1 / 2)) =
      Fin (5628795846771343 / 140737488355328)"
    by (subst round64_at [where e = 5]) (simp_all add: r64_eval)
  have 2: "round64 (5628795846771343 / 140737488355328 + 2 powi (- 52)) =
      Fin (5628795846771343 / 140737488355328)"
    by (subst round64_at [where e = 5]) (simp_all add: r64_eval)
  have 3: "round64 (5628795846771343 / 140737488355328 * 100) =
      Fin (8794993510580223 / 2199023255552)"
    by (subst round64_at [where e = 11]) (simp_all add: r64_eval)
  have 4: "mathRound (Fin (8794993510580223 / 2199023255552)) = Fin 3999"
    by (simp add: floor_numeral_quot)
  have 5: "round64 (3999 / 100) = Fin (5628092159329567 / 140737488355328)"
    by (subst round64_at [where e = 5]) (simp_all add: r64_eval)
  have "jtimes (Fin (5628795846771343 / 70368744177664)) (1 / 2) =
      Fin (5628795846771343 / 140737488355328)" using 1 by simp
  moreover have "jadd (Fin (5628795846771343 / 140737488355328)) EPSILON =
      Fin (5628795846771343 / 140737488355328)" using 2 by (simp add: EPSILON_def)
  moreover have "jtimes (Fin (5628795846771343 / 140737488355328)) 100 =
      Fin (8794993510580223 / 2199023255552)" using 3 by simp
  moreover have "jover (Fin 3999) 100 = Fin (5628092159329567 / 140737488355328)"
    using 5 by simp
  ultimately show ?thesis unfolding fixedOffer_def by (simp only: 4)
qed

lemma bestMatch_7999:
  "bestMatch ''selkirk amped'' [listing7999] = Some (Matched listing7999 (Some 13) None)"
  by code_simp

lemma offerHandler_7999:
  "replyOffer (fst (offerHandler noElements (Rejects ''ECONNRESET'') 0
       \<lparr>data = Some [listing7999], fetchedAt = 0, ttlMs = 300000\<rparr>
       \<lparr>model = Some ''selkirk amped'', condition = Some ''good'', notes_field = None\<rparr>)) =
     Some (Fin (5628092159329567 / 140737488355328))"
proof -
  have p: "priceParse (price listing7999) =
     Some \<lparr>lo = Fin (5628795846771343 / 70368744177664),
           hi = Fin (5628795846771343 / 70368744177664),
           mid = Fin (5628795846771343 / 70368744177664)\<rparr>"
    using priceParse_7999 by (simp add: listing7999_def)
  show ?thesis
    unfolding offerHandler_def scrapeUsedPaddles_def
    by (simp add: falsy_def bestMatch_7999 p fixedOffer_7999 del: toFixed2.simps)
qed

text \<open>
  C4. The claim: the offer equals \<open>mid * 0.5\<close> rounded to two decimal places, a tie
  going up. The code for a matched listing priced \<open>$79.99\<close>: the midpoint is the number
  \<open>79.99\<close>, half of it is \<open>39.995\<close>, which rounds up to \<open>40.00\<close>; the offer computed,
  for the price alone and for a whole request, is the number \<open>39.99\<close>.
\<close>

theorem offer_for_7999_is_3999:
  "map_option mid (priceParse ''$79.99'') = Some (parseFloat ''79.99'') \<and>
   fixedOffer (parseFloat ''79.99'') = parseFloat ''39.99'' \<and>
   replyOffer (fst (offerHandler noElements (Rejects ''ECONNRESET'') 0
       \<lparr>data = Some [listing7999], fetchedAt = 0, ttlMs = 300000\<rparr>
       \<lparr>model = Some ''selkirk amped'', condition = Some ''good'', notes_field = None\<rparr>)) =
     Some (parseFloat ''39.99'') \<and>
   parseFloat ''39.99'' \<noteq> parseFloat ''40.00'' \<and>
   spec_roundHalfUp2 (7999 / 100 * (1 / 2)) = 4000 / 100"
  by (simp add: priceParse_7999 parseFloat_7999 fixedOffer_7999 parseFloat_3999 parseFloat_4000
      offerHandler_7999 spec_roundHalfUp2_def floor_numeral_quot)

text \<open>The two examples of the claim hold: the midpoints \<open>135\<close> and \<open>99.995\<close> give the
  offers \<open>67.5\<close> and \<open>50\<close>.\<close>

lemma fixedOffer_examples:
  "fixedOffer (Fin 135) = Fin (135 / 2)"
  "fixedOffer (Fin (879565321755689 / 8796093022208)) = Fin 50"
proof -
  have 1: "round64 (135 * (1 / 2)) = Fin (135 / 2)"
    by (subst round64_at [where e = 6]) (simp_all add: r64_eval)
  have 2: "round64 (135 / 2 + 2 powi (- 52)) = Fin (135 / 2)"
    by (subst round64_at [where e = 6]) (simp_all add: r64_eval)
  have 3: "round64 (135 / 2 * 100) = Fin 6750"
    by (subst round64_at [where e = 12]) (simp_all add: r64_eval)
  have 4: "mathRound (Fin 6750) = Fin 6750" by (simp add: floor_numeral_quot)
  have 5: "round64 (6750 / 100) = Fin (135 / 2)"
    by (subst round64_at [where e = 6]) (simp_all add: r64_eval)
  have "jtimes (Fin 135) (1 / 2) = Fin (135 / 2)" using 1 by simp
  moreover have "jadd (Fin (135 / 2)) EPSILON = Fin (135 / 2)" using 2 by (simp add: EPSILON_def)
  moreover have "jtimes (Fin (135 / 2)) 100 = Fin 6750" using 3 by simp
  moreover have "jover (Fin 6750) 100 = Fin (135 / 2)" using 5 by simp
  ultimately show "fixedOffer (Fin 135) = Fin (135 / 2)" unfolding fixedOffer_def by (simp only: 4)
next
  have 1: "round64 (879565321755689 / 8796093022208 * (1 / 2)) = Fin (879565321755689 / 17592186044416)"
    by (subst round64_at [where e = 5]) (simp_all add: r64_eval)
  have 2: "round64 (879565321755689 / 17592186044416 + 2 powi (- 52)) =
      Fin (879565321755689 / 17592186044416)"
    by (subst round64_at [where e = 5]) (simp_all add: r64_eval)
  have 3: "round64 (879565321755689 / 17592186044416 * 100) = Fin (19999 / 4)"
    by (subst round64_at [where e = 12]) (simp_all add: r64_eval)
  have 4: "mathRound (Fin (19999 / 4)) = Fin 5000" by (simp add: floor_numeral_quot)
  have 5: "round64 (5000 / 100) = Fin 50"
    by (subst round64_at [where e = 5]) (simp_all add: r64_eval)
  have "jtimes (Fin (879565321755689 / 8796093022208)) (1 / 2) =
      Fin (879565321755689 / 17592186044416)" using 1 by simp
  moreover have "jadd (Fin (879565321755689 / 17592186044416)) EPSILON =
      Fin (879565321755689 / 17592186044416)" using 2 by (simp add: EPSILON_def)
  moreover have "jtimes (Fin (879565321755689 / 17592186044416)) 100 = Fin (19999 / 4)"
    using 3 by simp
  moreover have "jover (Fin 5000) 100 = Fin 50" using 5 by simp
  ultimately show "fixedOffer (Fin (879565321755689 / 8796093022208)) = Fin 50"
    unfolding fixedOffer_def by (simp only: 4)
qed


text \<open>
  Read on the exact value of the binary64 midpoint instead of its decimal text, the
  claim fails as well: the number \<open>2.01\<close> lies below the decimal \<open>2.01\<close>, half of it
  rounds to \<open>1.00\<close>, and the offer computed is the number \<open>1.01\<close>.
\<close>

lemma fixedOffer_201:
  "parseFloat ''2.01'' = Fin (1131529406376837 / 562949953421312)"
  "fixedOffer (Fin (1131529406376837 / 562949953421312)) = Fin (4548635623644201 / 4503599627370496)"
  "parseFloat ''1.01'' = Fin (4548635623644201 / 4503599627370496)"
  "spec_roundHalfUp2 (1131529406376837 / 562949953421312 * (1 / 2)) = 1"
proof -
  have "parseFloat ''2.01'' = round64 (201 / 100)"
    by (simp add: parseFloat_def isDigit_def digitsValue_def)
  also have "\<dots> = Fin (1131529406376837 / 562949953421312)"
    by (subst round64_at [where e = 1]) (simp_all add: r64_eval)
  finally show "parseFloat ''2.01'' = Fin (1131529406376837 / 562949953421312)" .
next
  have 1: "round64 (1131529406376837 / 562949953421312 * (1 / 2)) =
      Fin (1131529406376837 / 1125899906842624)"
    by (subst round64_at [where e = 0]) (simp_all add: r64_eval)
  have 2: "round64 (1131529406376837 / 1125899906842624 + 2 powi (- 52)) =
      Fin (4526117625507349 / 4503599627370496)"
    by (subst round64_at [where e = 0]) (simp_all add: r64_eval)
  have 3: "round64 (4526117625507349 / 4503599627370496 * 100) =
      Fin (7072058789855233 / 70368744177664)"
    by (subst round64_at [where e = 6]) (simp_all add: r64_eval)
  have 4: "mathRound (Fin (7072058789855233 / 70368744177664)) = Fin 101"
    by (simp add: floor_numeral_quot)
  have 5: "round64 (101 / 100) = Fin (4548635623644201 / 4503599627370496)"
    by (subst round64_at [where e = 0]) (simp_all add: r64_eval)
  have "jtimes (Fin (1131529406376837 / 562949953421312)) (1 / 2) =
      Fin (1131529406376837 / 1125899906842624)" using 1 by simp
  moreover have "jadd (Fin (1131529406376837 / 1125899906842624)) EPSILON =
      Fin (4526117625507349 / 4503599627370496)" using 2 by (simp add: EPSILON_def)
  moreover have "jtimes (Fin (4526117625507349 / 4503599627370496)) 100 =
      Fin (7072058789855233 / 70368744177664)" using 3 by simp
  moreover have "jover (Fin 101) 100 = Fin (4548635623644201 / 4503599627370496)"
    using 5 by simp
  ultimately show "fixedOffer (Fin (1131529406376837 / 562949953421312)) =
      Fin (4548635623644201 / 4503599627370496)"
    unfolding fixedOffer_def by (simp only: 4)
next
  have "parseFloat ''1.01'' = round64 (101 / 100)"
    by (simp add: parseFloat_def isDigit_def digitsValue_def)
  also have "\<dots> = Fin (4548635623644201 / 4503599627370496)"
    by (subst round64_at [where e = 0]) (simp_all add: r64_eval)
  finally show "parseFloat ''1.01'' = Fin (4548635623644201 / 4503599627370496)" .
next
  show "spec_roundHalfUp2 (1131529406376837 / 562949953421312 * (1 / 2)) = 1"
    by (simp add: spec_roundHalfUp2_def floor_numeral_quot)
qed

end
